theory Spec2Isabelle
  imports Complex_Main "HOL-Library.Word" "HOL-Library.AList"
begin

unbundle bit_operations_syntax

section \<open>Machine integers and byte strings\<close>

text \<open>
  Go's \<open>int\<close> is a 64-bit two's complement integer on the supported targets.  It is
  modelled as \<open>int\<close> with the wrap-around written out by \<open>int64\<close>; \<open>/\<close> truncates
  towards zero and panics on a zero divisor.  The fixed-width fields of the headers
  (\<open>uint8\<close>, \<open>uint16\<close>, \<open>uint32\<close>, \<open>uint64\<close>) are words.
\<close>

type_synonym byte = "8 word"

definition int64 :: "int \<Rightarrow> int" where
  "int64 x = (x + 2 ^ 63) mod 2 ^ 64 - 2 ^ 63"

definition go_quo :: "int \<Rightarrow> int \<Rightarrow> int" where
  "go_quo a b = int64 (sgn a * sgn b * (\<bar>a\<bar> div \<bar>b\<bar>))"

definition go_div :: "int \<Rightarrow> int \<Rightarrow> int option" where
  "go_div a b = (if b = 0 then None else Some (go_quo a b))"

definition be_word :: "byte list \<Rightarrow> 'a::len word" where
  "be_word bs = foldl (\<lambda>acc b. push_bit 8 acc OR ucast b) 0 bs"

definition be_bytes :: "nat \<Rightarrow> 'a::len word \<Rightarrow> byte list" where
  "be_bytes n w = map (\<lambda>i. ucast (drop_bit (8 * i) w)) (rev [0..<n])"

section \<open>Errors\<close>

datatype error =
    EOF
  | UnexpectedEOF
  | InsufficientFrameHeader nat nat
  | InsufficientGlobalHeader nat nat
  | ReadField string error
  | WorkerError int error
  | WriteFrameError int

section \<open>Erasure-code configuration (reed\_solomon.go)\<close>

record ECCConfig =
  DataShards :: int
  ParityShards :: int

definition NewECCConfig :: "string \<Rightarrow> ECCConfig" where
  "NewECCConfig level =
     (if level = ''low'' then \<lparr>DataShards = 16, ParityShards = 4\<rparr>
      else if level = ''high'' then \<lparr>DataShards = 16, ParityShards = 32\<rparr>
      else \<lparr>DataShards = 16, ParityShards = 8\<rparr>)"

section \<open>Frame layout (framer.go)\<close>

definition FrameHeaderSizeBytes :: nat where
  "FrameHeaderSizeBytes = 18"

definition GlobalHeaderSizeBytes :: nat where
  "GlobalHeaderSizeBytes = 20"

definition CalibrationBarHeight :: nat where
  "CalibrationBarHeight = 16"

record FrameConfig =
  Width :: int
  Height :: int
  MacroSize :: int
  FPS :: int
  CalibrationHeight :: int
  GrayLevels :: int

definition HighDensityFrameConfig :: FrameConfig where
  "HighDensityFrameConfig =
     \<lparr>Width = 1280, Height = 720, MacroSize = 10, FPS = 30,
      CalibrationHeight = 16, GrayLevels = 4\<rparr>"

definition YouTubeFrameConfig :: FrameConfig where
  "YouTubeFrameConfig =
     \<lparr>Width = 1920, Height = 1080, MacroSize = 24, FPS = 15,
      CalibrationHeight = 16, GrayLevels = 2\<rparr>"

definition DefaultFrameConfig :: FrameConfig where
  "DefaultFrameConfig =
     \<lparr>Width = 1280, Height = 720, MacroSize = 16, FPS = 30,
      CalibrationHeight = 16, GrayLevels = 2\<rparr>"

definition GridSize :: "FrameConfig \<Rightarrow> (int \<times> int) option" where
  "GridSize fc =
     (case go_div (Width fc) (MacroSize fc) of
        None \<Rightarrow> None
      | Some cols \<Rightarrow>
          (let availableHeight = int64 (Height fc - CalibrationHeight fc)
           in case go_div availableHeight (MacroSize fc) of
                None \<Rightarrow> None
              | Some rows \<Rightarrow> Some (cols, rows)))"

definition bytesInFrame_of :: "FrameConfig \<Rightarrow> int \<Rightarrow> int" where
  "bytesInFrame_of fc totalMacros =
     (if GrayLevels fc = 2 then go_quo totalMacros 8 else go_quo totalMacros 4)"

definition CapacityPerFrame :: "FrameConfig \<Rightarrow> ECCConfig \<Rightarrow> bool \<Rightarrow> int option" where
  "CapacityPerFrame fc eccCfg isFirstFrame =
     (case GridSize fc of
        None \<Rightarrow> None
      | Some (cols, rows) \<Rightarrow>
          (let totalMacros = int64 (cols * rows);
               bytesInFrame = bytesInFrame_of fc totalMacros;
               availableForECC = int64 (bytesInFrame - int FrameHeaderSizeBytes);
               totalShards = int64 (DataShards eccCfg + ParityShards eccCfg)
           in case go_div availableForECC totalShards of
                None \<Rightarrow> None
              | Some maxShardSize \<Rightarrow>
                  (let dataCapacity0 = int64 (maxShardSize * DataShards eccCfg);
                       dataCapacity1 =
                         (if isFirstFrame
                          then int64 (dataCapacity0 - int GlobalHeaderSizeBytes)
                          else dataCapacity0);
                       dataCapacity = int64 (dataCapacity1 - 10)
                   in Some (if dataCapacity < 0 then 0 else dataCapacity))))"

record GlobalHeader =
  OriginalSize :: "64 word"
  TotalFrames :: "32 word"
  Reserved :: "byte list"

record FrameHeader =
  Magic :: "byte list"
  FrameIndex :: "32 word"
  DataSize :: "16 word"
  DataCRC :: "32 word"
  HasGlobal :: byte
  HdrParityShards :: byte
  GlobalOffset :: "16 word"
  GlobalMeta :: GlobalHeader

definition emptyGlobalHeader :: GlobalHeader where
  "emptyGlobalHeader = \<lparr>OriginalSize = 0, TotalFrames = 0, Reserved = replicate 8 0\<rparr>"

definition emptyHeader :: FrameHeader where
  "emptyHeader =
     \<lparr>Magic = replicate 4 0, FrameIndex = 0, DataSize = 0, DataCRC = 0, HasGlobal = 0,
      HdrParityShards = 0, GlobalOffset = 0, GlobalMeta = emptyGlobalHeader\<rparr>"

definition NCC1 :: "byte list" where
  "NCC1 = [0x4E, 0x43, 0x43, 0x31]"

text \<open>
  \<open>bytes.Reader.Read\<close> into an \<open>n\<close>-byte array reports \<open>EOF\<close> when nothing is left and
  otherwise copies what is there; \<open>binary.Read\<close> of an \<open>n\<close>-byte integer needs all
  \<open>n\<close> bytes.  Both return the rest of the reader.
\<close>

definition reader_Read :: "nat \<Rightarrow> byte list \<Rightarrow> error + (byte list \<times> byte list)" where
  "reader_Read n r =
     (if r = [] then Inl EOF
      else Inr (take n r @ replicate (n - length r) 0, drop n r))"

definition binary_Read :: "nat \<Rightarrow> byte list \<Rightarrow> error + ('a::len word \<times> byte list)" where
  "binary_Read n r =
     (if r = [] then Inl EOF
      else if length r < n then Inl UnexpectedEOF
      else Inr (be_word (take n r), drop n r))"

definition GlobalHeader_Encode :: "GlobalHeader \<Rightarrow> byte list" where
  "GlobalHeader_Encode gh =
     be_bytes 8 (OriginalSize gh) @ be_bytes 4 (TotalFrames gh) @ Reserved gh"

definition DecodeGlobalHeader :: "byte list \<Rightarrow> error + GlobalHeader" where
  "DecodeGlobalHeader data =
     (if length data < GlobalHeaderSizeBytes
      then Inl (InsufficientGlobalHeader (length data) GlobalHeaderSizeBytes)
      else Inr \<lparr>OriginalSize = be_word (take 8 data),
                TotalFrames = be_word (take 4 (drop 8 data)),
                Reserved = take 8 (drop 12 data)\<rparr>)"

definition FrameHeader_Encode :: "FrameHeader \<Rightarrow> byte list" where
  "FrameHeader_Encode fh =
     Magic fh @ be_bytes 4 (FrameIndex fh) @ be_bytes 2 (DataSize fh)
       @ be_bytes 4 (DataCRC fh) @ [HasGlobal fh] @ [HdrParityShards fh]
       @ be_bytes 2 (GlobalOffset fh)"

definition DecodeHeader :: "byte list \<Rightarrow> error + FrameHeader" where
  "DecodeHeader data =
     (if length data < FrameHeaderSizeBytes
      then Inl (InsufficientFrameHeader (length data) FrameHeaderSizeBytes)
      else
       (case reader_Read 4 data of
          Inl e \<Rightarrow> Inl (ReadField ''Magic'' e)
        | Inr (magic, r1) \<Rightarrow>
       (case binary_Read 4 r1 of
          Inl e \<Rightarrow> Inl (ReadField ''FrameIndex'' e)
        | Inr (frameIndex, r2) \<Rightarrow>
       (case binary_Read 2 r2 of
          Inl e \<Rightarrow> Inl (ReadField ''DataSize'' e)
        | Inr (dataSize, r3) \<Rightarrow>
       (case binary_Read 4 r3 of
          Inl e \<Rightarrow> Inl (ReadField ''DataCRC'' e)
        | Inr (dataCRC, r4) \<Rightarrow>
       (case binary_Read 1 r4 of
          Inl e \<Rightarrow> Inl (ReadField ''HasGlobal'' e)
        | Inr (hasGlobal, r5) \<Rightarrow>
       (case binary_Read 1 r5 of
          Inl e \<Rightarrow> Inl (ReadField ''ParityShards'' e)
        | Inr (parityShards, r6) \<Rightarrow>
       (case binary_Read 2 r6 of
          Inl e \<Rightarrow> Inl (ReadField ''GlobalOffset'' e)
        | Inr (globalOffset, r7) \<Rightarrow>
            Inr \<lparr>Magic = magic, FrameIndex = frameIndex, DataSize = dataSize,
                 DataCRC = dataCRC, HasGlobal = hasGlobal,
                 HdrParityShards = parityShards, GlobalOffset = globalOffset,
                 GlobalMeta = emptyGlobalHeader\<rparr>))))))))"

text \<open>
  The capacity arithmetic as the specification words it, with mathematical (floor)
  division throughout; it is compared with \<open>CapacityPerFrame\<close> below.
\<close>

definition bytesPerFrame_spec :: "FrameConfig \<Rightarrow> int" where
  "bytesPerFrame_spec fc =
     (let cols = Width fc div MacroSize fc;
          rows = (Height fc - CalibrationHeight fc) div MacroSize fc;
          totalMacros = cols * rows
      in if GrayLevels fc = 2 then totalMacros div 8 else totalMacros div 4)"

text \<open>The part of \<open>CapacityPerFrame\<close> that follows the computation of bytesInFrame
  (used to structure the proof only).\<close>

definition capacity_tail :: "int \<Rightarrow> ECCConfig \<Rightarrow> bool \<Rightarrow> int option" where
  "capacity_tail bytesInFrame eccCfg isFirstFrame =
     (let availableForECC = int64 (bytesInFrame - int FrameHeaderSizeBytes);
          totalShards = int64 (DataShards eccCfg + ParityShards eccCfg)
      in case go_div availableForECC totalShards of
           None \<Rightarrow> None
         | Some maxShardSize \<Rightarrow>
             (let dataCapacity0 = int64 (maxShardSize * DataShards eccCfg);
                  dataCapacity1 =
                    (if isFirstFrame
                     then int64 (dataCapacity0 - int GlobalHeaderSizeBytes)
                     else dataCapacity0);
                  dataCapacity = int64 (dataCapacity1 - 10)
              in Some (if dataCapacity < 0 then 0 else dataCapacity)))"

section \<open>Splitting the payload into frames (video.go, EncodeFile; main.go, runMaster)\<close>

text \<open>
  \<open>a[lo:hi]\<close> on a slice panics unless \<open>0 \<le> lo \<le> hi \<le> len(a)\<close> (the slices cut
  here have no spare capacity that the code relies on).
\<close>

definition go_slice :: "'a list \<Rightarrow> int \<Rightarrow> int \<Rightarrow> 'a list option" where
  "go_slice xs lo hi =
     (if 0 \<le> lo \<and> lo \<le> hi \<and> hi \<le> int (length xs)
      then Some (take (nat (hi - lo)) (drop (nat lo) xs)) else None)"

text \<open>The frame count (EncodeFile lines 200 to 214, the same lines in runMaster).\<close>

definition totalFrames_of :: "int \<Rightarrow> int \<Rightarrow> int \<Rightarrow> int option" where
  "totalFrames_of dataLen capacityFrame0 capacityOthers =
     (let remainingAfterFrame0 =
            (if dataLen > capacityFrame0 then int64 (dataLen - capacityFrame0) else 0)
      in if remainingAfterFrame0 > 0
         then (case go_div (int64 (int64 (remainingAfterFrame0 + capacityOthers) - 1))
                      capacityOthers of
                 None \<Rightarrow> None
               | Some q \<Rightarrow> Some (int64 (1 + q)))
         else Some 1)"

text \<open>The payload slice of job \<open>i\<close>, as the dispatcher loop cuts it.\<close>

definition frameData_of :: "byte list \<Rightarrow> int \<Rightarrow> int \<Rightarrow> int \<Rightarrow> byte list option" where
  "frameData_of data capacityFrame0 capacityOthers i =
     (let len = int (length data) in
      if i = 0 then
        (let stop = (if capacityFrame0 > len then len else capacityFrame0)
         in go_slice data 0 stop)
      else
        (let start = int64 (capacityFrame0 + int64 (int64 (i - 1) * capacityOthers));
             stop = int64 (start + capacityOthers)
         in if start \<ge> len then Some []
            else go_slice data start (if stop > len then len else stop)))"

text \<open>The dispatcher emits the jobs for \<open>i = 0, \<dots>, totalFrames - 1\<close> in this order.\<close>

definition frame_jobs :: "byte list \<Rightarrow> int \<Rightarrow> int \<Rightarrow> (int \<times> byte list) list option" where
  "frame_jobs data capacityFrame0 capacityOthers =
     (case totalFrames_of (int (length data)) capacityFrame0 capacityOthers of
        None \<Rightarrow> None
      | Some totalFrames \<Rightarrow>
          those (map (\<lambda>i. map_option (Pair i)
                            (frameData_of data capacityFrame0 capacityOthers i))
                     [0 .. totalFrames - 1]))"


section \<open>The ordered collector (video.go, EncodeFile)\<close>

text \<open>
  A worker sends one \<open>Result\<close> per job.  The collector keeps the results that arrived
  out of order in the map \<open>pending\<close> (an association list here, so that the inner loop
  is seen to terminate) and writes the raster of frame \<open>nextFrameIndex\<close> to the muxer
  pipe as soon as it is there.  \<open>written\<close> records what went down the pipe: the frame
  index and the pixels the raster was drawn from.  Whether a write succeeds is decided
  outside the program; \<open>pipe_ok k\<close> says that the write after \<open>k\<close> earlier ones does.
  runMaster's collector loop has the same shape.
\<close>

record 'p Result =
  Index :: int
  Pixels :: 'p
  Err :: "error option"

record 'p collector =
  pending :: "(int \<times> 'p) list"
  nextFrameIndex :: int
  written :: "(int \<times> 'p) list"

lemma length_delete_less:
  "map_of al k = Some v \<Longrightarrow> length (AList.delete k al) < length al"
  by (induction al) (auto simp: AList.delete_eq le_imp_less_Suc split: if_splits)

function drain :: "(nat \<Rightarrow> bool) \<Rightarrow> 'p collector \<Rightarrow> error option \<times> 'p collector" where
  "drain pipe_ok st =
     (case map_of (pending st) (nextFrameIndex st) of
        None \<Rightarrow> (None, st)
      | Some pixels \<Rightarrow>
          if \<not> pipe_ok (length (written st))
          then (Some (WriteFrameError (nextFrameIndex st)), st)
          else drain pipe_ok
                 \<lparr>pending = AList.delete (nextFrameIndex st) (pending st),
                  nextFrameIndex = nextFrameIndex st + 1,
                  written = written st @ [(nextFrameIndex st, pixels)]\<rparr>)"
  by pat_completeness auto
termination
  by (relation "measure (\<lambda>(ok, st). length (pending st))") (auto simp: length_delete_less)

declare drain.simps [simp del]

fun collect :: "(nat \<Rightarrow> bool) \<Rightarrow> 'p collector \<Rightarrow> 'p Result list \<Rightarrow> error option \<times> 'p collector" where
  "collect pipe_ok st [] = (None, st)"
| "collect pipe_ok st (res # rest) =
     (case Err res of
        Some e \<Rightarrow> (Some (WorkerError (Index res) e), st)
      | None \<Rightarrow>
          (case drain pipe_ok
                  (st\<lparr>pending := AList.update (Index res) (Pixels res) (pending st)\<rparr>) of
             (Some e, st') \<Rightarrow> (Some e, st')
           | (None, st') \<Rightarrow> collect pipe_ok st' rest))"

definition collector0 :: "'p collector" where
  "collector0 = \<lparr>pending = [], nextFrameIndex = 0, written = []\<rparr>"

text \<open>The invariant of the collector loop, and the pixels that arrived for a frame.\<close>

definition coll_inv :: "(int \<rightharpoonup> 'p) \<Rightarrow> int set \<Rightarrow> 'p collector \<Rightarrow> bool" where
  "coll_inv m S st \<longleftrightarrow>
     0 \<le> nextFrameIndex st
     \<and> {0 ..< nextFrameIndex st} \<subseteq> S
     \<and> written st = map (\<lambda>i. (i, the (m i))) [0 .. nextFrameIndex st - 1]
     \<and> (\<forall>k. map_of (pending st) k
             = (if k \<in> S \<and> k \<notin> {0 ..< nextFrameIndex st} then m k else None))"

definition frame_pixels :: "'p Result list \<Rightarrow> int \<Rightarrow> 'p" where
  "frame_pixels rs i = the (map_of (map (\<lambda>r. (Index r, Pixels r)) rs) i)"

section \<open>Checksums (hash/crc32 of the standard library)\<close>

text \<open>
  \<open>crc32.ChecksumIEEE\<close> is the reflected CRC-32 with polynomial \<open>0xEDB88320\<close>, initial
  value and final complement \<open>0xFFFFFFFF\<close>, computed here bit by bit.
\<close>

definition crc32_bit :: "32 word \<Rightarrow> 32 word" where
  "crc32_bit c = (if c AND 1 = 1 then drop_bit 1 c XOR 0xEDB88320 else drop_bit 1 c)"

definition crc32_update :: "32 word \<Rightarrow> byte \<Rightarrow> 32 word" where
  "crc32_update crc b = (crc32_bit ^^ 8) (crc XOR ucast b)"

definition ChecksumIEEE :: "byte list \<Rightarrow> 32 word" where
  "ChecksumIEEE bs = NOT (foldl crc32_update 0xFFFFFFFF bs)"

section \<open>Macro pixels (macro\_pixel.go)\<close>

record MacroPixel =
  mpX :: int
  mpY :: int
  DataByte :: byte
  mpSize :: int
  IsBinary :: bool

definition grayLevels :: "byte list" where
  "grayLevels = [32, 96, 160, 224]"

definition binaryLevels :: "byte list" where
  "binaryLevels = [32, 224]"

definition NibbleToGray :: "byte \<Rightarrow> byte" where
  "NibbleToGray bits = grayLevels ! unat (if bits > 3 then 3 else bits)"

definition BitToGray :: "byte \<Rightarrow> byte" where
  "BitToGray b = binaryLevels ! unat (if b > 1 then 1 else b)"

definition ByteToGray :: "MacroPixel \<Rightarrow> byte" where
  "ByteToGray mp =
     (if IsBinary mp then BitToGray (DataByte mp AND 1) else NibbleToGray (DataByte mp AND 3))"

definition DynGrayToNibble :: "byte \<Rightarrow> byte \<times> byte \<times> byte \<Rightarrow> byte" where
  "DynGrayToNibble gray thresholds =
     (case thresholds of (t0, t1, t2) \<Rightarrow>
        if gray < t0 then 0 else if gray < t1 then 1 else if gray < t2 then 2 else 3)"

section \<open>Rasters as the decoder sees them\<close>

text \<open>
  A decoded frame is an image with bounds \<open>(0, 0) - (img_w, img_h)\<close>.  The decoder
  reads only \<open>r >> 8\<close> of \<open>img.At(x, y).RGBA()\<close>, the 8-bit red channel: the number
  \<open>img_red x y\<close>, of which the low eight bits count.  Outside the bounds \<open>At\<close>
  returns the zero colour.
\<close>

record image =
  img_w :: int
  img_h :: int
  img_red :: "int \<Rightarrow> int \<Rightarrow> int"

definition red_at :: "image \<Rightarrow> int \<Rightarrow> int \<Rightarrow> int" where
  "red_at img x y =
     (if 0 \<le> x \<and> x < img_w img \<and> 0 \<le> y \<and> y < img_h img
      then img_red img x y mod 256 else 0)"

section \<open>Calibration and sampling (reconstructor.go)\<close>

text \<open>
  Pixel coordinates and slice indices below are bounded by the size of the image and
  of the byte strings in memory; their arithmetic is written without \<open>int64\<close>.
  The sums and counts of the source are \<open>uint32\<close>: integers modulo \<open>2^32\<close>.  The
  conversion of a quotient to \<open>uint8\<close> keeps its low eight bits.
\<close>

definition measureSectionAverage :: "image \<Rightarrow> int \<Rightarrow> int \<Rightarrow> int \<Rightarrow> int \<Rightarrow> byte" where
  "measureSectionAverage img startX startY w h =
     (let marginX = go_quo w 4;
          marginY = go_quo h 4;
          ys = [startY + marginY .. startY + h - marginY - 1];
          xs = [startX + marginX .. startX + w - marginX - 1];
          sum = (\<Sum>y\<leftarrow>ys. \<Sum>x\<leftarrow>xs. red_at img x y) mod 2 ^ 32;
          count = int (length ys * length xs) mod 2 ^ 32
      in if count = 0 then 128 else word_of_int (sum div count))"

text \<open>
  \<open>calibrateFrame\<close> has the result type \<open>(byte, error)\<close> and always returns a nil
  error.
\<close>

definition calibrateFrame :: "image \<Rightarrow> error + byte" where
  "calibrateFrame img =
     (let width = img_w img;
          sectionWidth = go_quo width 4;
          sampleY = go_quo (int CalibrationBarHeight) 2;
          blackAvg = measureSectionAverage img 0 sampleY sectionWidth
                       (int CalibrationBarHeight);
          whiteAvg = measureSectionAverage img (3 * sectionWidth) sampleY sectionWidth
                       (int CalibrationBarHeight);
          threshold = (word_of_int (go_quo (uint blackAvg + uint whiteAvg) 2) :: byte)
      in Inr threshold)"

text \<open>
  \<open>calibrateLevels\<close> computes in \<open>float64\<close>.  Its operands are integers between 0 and
  255 and the constants \<open>1/6\<close>, \<open>0.5\<close> and \<open>5/6\<close>; every exact value is an integer or
  at least \<open>1/6\<close> away from one, so the conversion to \<open>uint8\<close> truncates to the same
  byte as exact arithmetic, which the model uses.
\<close>

definition calibrateLevels :: "image \<Rightarrow> error + (byte \<times> byte \<times> byte)" where
  "calibrateLevels img =
     (let width = img_w img;
          sectionWidth = go_quo width 4;
          sampleY = go_quo (int CalibrationBarHeight) 2;
          blackAvg = (of_int (uint (measureSectionAverage img 0 sampleY sectionWidth
                       (int CalibrationBarHeight))) :: rat);
          whiteAvg = (of_int (uint (measureSectionAverage img (3 * sectionWidth) sampleY
                       sectionWidth (int CalibrationBarHeight))) :: rat);
          rng = whiteAvg - blackAvg
      in if rng < 10 then Inr (64, 128, 192)
         else Inr (word_of_int \<lfloor>blackAvg + rng * (1 / 6)\<rfloor>,
                   word_of_int \<lfloor>blackAvg + rng * (1 / 2)\<rfloor>,
                   word_of_int \<lfloor>blackAvg + rng * (5 / 6)\<rfloor>))"

text \<open>The first result of \<open>extractMacroPixel\<close> (the other two are the constant 128).\<close>

definition extractMacroPixel :: "FrameConfig \<Rightarrow> image \<Rightarrow> int \<Rightarrow> int \<Rightarrow> byte" where
  "extractMacroPixel fc img startX startY =
     (let realY = startY + int CalibrationBarHeight;
          macroSize = MacroSize fc;
          pts = concat (map (\<lambda>dy. concat (map (\<lambda>dx.
                  (let px = startX + dx; py = realY + dy
                   in if px \<ge> img_w img \<or> py \<ge> img_h img then [] else [(px, py)]))
                  [0 .. macroSize - 1])) [0 .. macroSize - 1]);
          sumR = (\<Sum>p\<leftarrow>pts. red_at img (fst p) (snd p)) mod 2 ^ 32;
          count = int (length pts)
      in if count = 0 then 0 else word_of_int (sumR div (count mod 2 ^ 32)))"


fun pack4 :: "byte list \<Rightarrow> byte list" where
  "pack4 (b0 # b1 # b2 # b3 # rest) =
     (push_bit 6 b0 OR push_bit 4 b1 OR push_bit 2 b2 OR b3) # pack4 rest"
| "pack4 bits = []"

definition sample_cell ::
  "FrameConfig \<Rightarrow> image \<Rightarrow> byte \<Rightarrow> byte \<times> byte \<times> byte \<Rightarrow> int \<Rightarrow> int \<Rightarrow> int \<Rightarrow> int \<Rightarrow> byte"
where
  "sample_cell fc img threshold thresholds offX offY x y =
     (let macroSize = MacroSize fc;
          targetX = x * macroSize + offX;
          targetY = y * macroSize + offY;
          avgY = extractMacroPixel fc img targetX targetY
      in if GrayLevels fc = 2 then (if avgY \<ge> threshold then 1 else 0)
         else DynGrayToNibble avgY thresholds)"

text \<open>The cell values in the order the two loops of \<open>readBytesFromImage\<close> append them.\<close>

definition grid_bits ::
  "FrameConfig \<Rightarrow> image \<Rightarrow> byte \<Rightarrow> byte \<times> byte \<times> byte \<Rightarrow> int \<Rightarrow> int \<Rightarrow> int \<Rightarrow> int
     \<Rightarrow> byte list"
where
  "grid_bits fc img threshold thresholds offX offY cols rows =
     concat (map (\<lambda>y. map (\<lambda>x. sample_cell fc img threshold thresholds offX offY x y)
                          [0 .. cols - 1]) [0 .. rows - 1])"


section \<open>The Reed--Solomon library and the float scan, as far as the decoder needs them\<close>

text \<open>
  The erasure coder is the library \<open>klauspost/reedsolomon\<close>; its arithmetic is not
  part of the sources.  The model takes as parameters whether the constructor accepts
  a shard configuration, the parity shards \<open>Encode\<close> computes, the verdict of
  \<open>Verify\<close> and the result of \<open>Reconstruct\<close> (the repaired shards, or an error).
  The fourth parameter stands for the candidate level triples that the 4-level
  recovery scan of \<open>processFrame\<close> derives from the calibrated levels in \<open>float64\<close>
  arithmetic with an accumulated loop variable; the model takes the list of triples in
  the order the loops try them.
\<close>

record extern =
  rs_New :: "int \<Rightarrow> int \<Rightarrow> bool"
  rs_Parity :: "int \<Rightarrow> int \<Rightarrow> byte list list \<Rightarrow> byte list list"
  rs_Verify :: "int \<Rightarrow> int \<Rightarrow> byte list list \<Rightarrow> bool"
  rs_Reconstruct :: "int \<Rightarrow> int \<Rightarrow> byte list list \<Rightarrow> byte list list option"
  scan_levels :: "byte \<times> byte \<times> byte \<Rightarrow> (byte \<times> byte \<times> byte) list"

datatype decode_error =
    FrameTooSmall nat
  | DecodeHeaderFailed error
  | InvalidMagic "byte list"
  | CreateECCFailed
  | ReconstructFailed
  | JoinFailed
  | InsufficientForGlobalHeader nat
  | DecodeGlobalHeaderFailed error
  | Panic
  | FrameProcessError decode_error
  | MissingResult nat

text \<open>
  Modelled from the spec: \<open>Split\<close> and \<open>Join\<close> of the library, which the
  specification describes in section 4.B: \<open>Split\<close> pads the buffer with zeros to a
  multiple of \<open>k\<close> and slices it into equal shards (no shards for an empty buffer, which
  the library refuses); \<open>Join\<close> concatenates the first \<open>k\<close> shards and truncates to
  \<open>outSize\<close>, and fails when there are fewer than \<open>k\<close> shards or fewer than
  \<open>outSize\<close> bytes in them.
\<close>

definition rs_Split :: "int \<Rightarrow> byte list \<Rightarrow> byte list list option" where
  "rs_Split k buf =
     (if buf = [] \<or> k \<le> 0 then None
      else (let perShard = (length buf + nat k - 1) div nat k;
                padded = buf @ replicate (nat k * perShard - length buf) 0
            in Some (map (\<lambda>i. take perShard (drop (i * perShard) padded)) [0 ..< nat k])))"

definition rs_Join :: "int \<Rightarrow> byte list list \<Rightarrow> int \<Rightarrow> byte list option" where
  "rs_Join k shards outSize =
     (if int (length shards) < k then None
      else (let ds = take (nat k) shards
            in if int (length (concat ds)) < outSize then None
               else Some (take (nat outSize) (concat ds))))"

section \<open>Decoding one frame (reconstructor.go, processFrame)\<close>

record FrameReconstructor =
  FrameCfg :: FrameConfig
  ECCCfg :: ECCConfig

definition NewFrameReconstructor :: "string \<Rightarrow> FrameReconstructor" where
  "NewFrameReconstructor preset =
     \<lparr>FrameCfg = (if preset = ''youtube'' then YouTubeFrameConfig
                  else if preset = ''dense'' then HighDensityFrameConfig
                  else DefaultFrameConfig),
      ECCCfg = \<lparr>DataShards = 16, ParityShards = 48\<rparr>\<rparr>"



fun find_first :: "('a \<Rightarrow> 'b option) \<Rightarrow> 'a list \<Rightarrow> ('a \<times> 'b) option" where
  "find_first f [] = None"
| "find_first f (x # xs) = (case f x of Some y \<Rightarrow> Some (x, y) | None \<Rightarrow> find_first f xs)"








text \<open>The ECC configuration and the shard size that the header dictates (lines 460 to 479).\<close>

definition header_eccCfg :: "FrameHeader \<Rightarrow> ECCConfig" where
  "header_eccCfg header =
     (let parityShards = uint (HdrParityShards header);
          parityShards = (if parityShards = 0 then 48 else parityShards)
      in \<lparr>DataShards = 16, ParityShards = parityShards\<rparr>)"

definition header_shardSize :: "FrameHeader \<Rightarrow> int" where
  "header_shardSize header =
     (let eccCfg = header_eccCfg header;
          shardSize = go_quo (uint (DataSize header) + DataShards eccCfg - 1)
                        (DataShards eccCfg)
      in if shardSize = 0 then 1 else shardSize)"

text \<open>
  The split of the bytes after the header into zero-padded shards (lines 481 to 507);
  \<open>shard_piece\<close> is the body of the loop, the shard with number \<open>i\<close>.
\<close>

definition shard_piece :: "int \<Rightarrow> byte list \<Rightarrow> int \<Rightarrow> byte list" where
  "shard_piece shardSize dataWithECC i =
     (let start = i * shardSize;
          stop = start + shardSize
      in if start \<ge> int (length dataWithECC) then replicate (nat shardSize) 0
         else (let stop = (if stop > int (length dataWithECC)
                           then int (length dataWithECC) else stop);
                   part = take (nat (stop - start)) (drop (nat start) dataWithECC)
               in part @ replicate (nat shardSize - length part) 0))"

definition split_shards :: "FrameHeader \<Rightarrow> byte list \<Rightarrow> byte list list" where
  "split_shards header dataWithECC0 =
     (let eccCfg = header_eccCfg header;
          totalShards = DataShards eccCfg + ParityShards eccCfg;
          shardSize = header_shardSize header;
          eccBytes = shardSize * totalShards;
          eccBytes = (if eccBytes > int (length dataWithECC0)
                      then int (length dataWithECC0) else eccBytes);
          dataWithECC = take (nat eccBytes) dataWithECC0
      in map (shard_piece shardSize dataWithECC) [0 .. totalShards - 1])"

text \<open>The integrity check and the split of global header and payload (lines 522 to 553).\<close>

definition finish_frame ::
  "FrameHeader \<Rightarrow> byte list \<Rightarrow> decode_error + (byte list \<times> FrameHeader \<times> bool)"
where
  "finish_frame header out =
     (let dataLen = uint (DataSize header);
          dataLen = (if dataLen > int (length out) then int (length out) else dataLen)
      in if HasGlobal header = 1 \<and> FrameIndex header = 0 then
           (if length out < GlobalHeaderSizeBytes
            then Inl (InsufficientForGlobalHeader (length out))
            else
              (case DecodeGlobalHeader (take GlobalHeaderSizeBytes out) of
                 Inl e \<Rightarrow> Inl (DecodeGlobalHeaderFailed e)
               | Inr gh \<Rightarrow>
                   (let header' = header\<lparr>GlobalMeta := gh\<rparr>;
                        frameData = take (nat dataLen) out;
                        crcOK = (ChecksumIEEE frameData = DataCRC header')
                    in case go_slice out (int GlobalHeaderSizeBytes) dataLen of
                         None \<Rightarrow> Inl Panic
                       | Some actualData \<Rightarrow> Inr (actualData, header', crcOK))))
         else
           (let actualData = take (nat dataLen) out;
                crcOK = (ChecksumIEEE actualData = DataCRC header)
            in Inr (actualData, header, crcOK)))"

text \<open>The body of \<open>processFrame\<close> after the recovery (lines 432 to 554).\<close>

definition decode_body ::
  "extern \<Rightarrow> FrameReconstructor \<Rightarrow> byte list
     \<Rightarrow> decode_error + (byte list \<times> FrameHeader \<times> bool)"
where
  "decode_body ext fr allBytes =
     (if length allBytes < FrameHeaderSizeBytes then Inl (FrameTooSmall (length allBytes))
      else
       (case DecodeHeader (take FrameHeaderSizeBytes allBytes) of
          Inl e \<Rightarrow> Inl (DecodeHeaderFailed e)
        | Inr header \<Rightarrow>
       if Magic header \<noteq> NCC1 then Inl (InvalidMagic (Magic header))
       else
       (case GridSize (FrameCfg fr) of
          None \<Rightarrow> Inl Panic
        | Some (cols, rows) \<Rightarrow>
       (let totalMacros = int64 (cols * rows);
            bytesInFrame = bytesInFrame_of (FrameCfg fr) totalMacros;
            usableBytes = bytesInFrame - int FrameHeaderSizeBytes;
            usableBytes =
              (if usableBytes > int (length allBytes) - int FrameHeaderSizeBytes
               then int (length allBytes) - int FrameHeaderSizeBytes else usableBytes)
        in case go_slice allBytes (int FrameHeaderSizeBytes)
                  (int FrameHeaderSizeBytes + usableBytes) of
             None \<Rightarrow> Inl Panic
           | Some dataWithECC \<Rightarrow>
       (let eccCfg = header_eccCfg header;
            k = DataShards eccCfg;
            m = ParityShards eccCfg
        in if \<not> rs_New ext k m then Inl CreateECCFailed
           else
       (let shardSize = header_shardSize header;
            shards = split_shards header dataWithECC
        in case (if rs_Verify ext k m shards then Some shards
                 else rs_Reconstruct ext k m shards) of
             None \<Rightarrow> Inl ReconstructFailed
           | Some shards' \<Rightarrow>
       (let expectedSize = DataShards (ECCCfg fr) * shardSize
        in case rs_Join k shards' expectedSize of
             None \<Rightarrow> Inl JoinFailed
           | Some out \<Rightarrow> finish_frame header out)))))))"



section \<open>Reassembly (reconstructor.go, ReconstructFile)\<close>

record decodeResult =
  res_index :: nat
  res_data :: "byte list"
  res_header :: FrameHeader
  res_crcOK :: bool
  res_err :: "decode_error option"

text \<open>
  The results arrive from the workers in some order; the first one that carries an
  error ends the reconstruction.  \<open>resultsMap\<close> is filled index by index and a later
  result for the same index replaces the earlier one.  The second component counts
  the CRC warnings.
\<close>

fun collect_results ::
  "(nat \<rightharpoonup> decodeResult) \<times> nat \<Rightarrow> decodeResult list
     \<Rightarrow> decode_error + ((nat \<rightharpoonup> decodeResult) \<times> nat)"
where
  "collect_results (resultsMap, crcWarnings) [] = Inr (resultsMap, crcWarnings)"
| "collect_results (resultsMap, crcWarnings) (res # rest) =
     (case res_err res of
        Some e \<Rightarrow> Inl (FrameProcessError e)
      | None \<Rightarrow>
          collect_results
            (resultsMap(res_index res \<mapsto> res),
             if res_crcOK res then crcWarnings else crcWarnings + 1) rest)"

fun assemble :: "(nat \<rightharpoonup> decodeResult) \<Rightarrow> nat list \<Rightarrow> byte list \<Rightarrow> decode_error + byte list"
where
  "assemble resultsMap [] allData = Inr allData"
| "assemble resultsMap (i # rest) allData =
     (case resultsMap i of
        None \<Rightarrow> Inl (MissingResult i)
      | Some res \<Rightarrow> assemble resultsMap rest (allData @ res_data res))"

text \<open>
  \<open>ReconstructFile\<close> for \<open>n\<close> frame paths whose results arrive as the list \<open>arrivals\<close>;
  the result is the content of the output file.
\<close>

definition ReconstructFile :: "nat \<Rightarrow> decodeResult list \<Rightarrow> decode_error + byte list" where
  "ReconstructFile n arrivals =
     (case collect_results (Map.empty, 0) arrivals of
        Inl e \<Rightarrow> Inl e
      | Inr (resultsMap, crcWarnings) \<Rightarrow> assemble resultsMap [0 ..< n] [])"

section \<open>Concrete inputs used in witnesses and counterexamples\<close>

text \<open>The result that arrived for frame \<open>i\<close>.\<close>

definition result_of :: "decodeResult list \<Rightarrow> nat \<Rightarrow> decodeResult" where
  "result_of arrivals i = the (find (\<lambda>r. res_index r = i) arrivals)"

text \<open>
  Headers with a valid Magic: one with \<open>DataSize = 0\<close>, one with \<open>DataSize = 33\<close> and
  four parity shards, one for a frame 1 of three bytes whose CRC field is zero; and a
  decode result carrying a CRC warning.
\<close>

definition hdr_z :: FrameHeader where
  "hdr_z = emptyHeader\<lparr>Magic := NCC1\<rparr>"

definition hdr_s :: FrameHeader where
  "hdr_s = emptyHeader\<lparr>Magic := NCC1, DataSize := 33, HdrParityShards := 4\<rparr>"

definition hdr_w :: FrameHeader where
  "hdr_w = emptyHeader\<lparr>Magic := NCC1, FrameIndex := 1, DataSize := 3\<rparr>"

definition res_w :: "nat \<Rightarrow> byte list \<Rightarrow> decodeResult" where
  "res_w i d = \<lparr>res_index = i, res_data = d, res_header = hdr_w, res_crcOK = False,
               res_err = None\<rparr>"

text \<open>
  The header of a frame 0 that announces the global header but only five bytes of data,
  and the 440 bytes of a frame of the default preset with that header and zeros after
  it.
\<close>

definition hdr_g :: FrameHeader where
  "hdr_g = emptyHeader\<lparr>Magic := NCC1, DataSize := 5, HasGlobal := 1, HdrParityShards := 4,
             GlobalOffset := 18\<rparr>"

definition frame_g :: "byte list" where
  "frame_g = [0x4E, 0x43, 0x43, 0x31, 0, 0, 0, 0, 0, 5, 0, 0, 0, 0, 1, 4, 0, 18]
               @ replicate 422 0"



text \<open>
  An instance of the external parameters, for statements about one concrete run that
  does not depend on them.
\<close>

definition ext_stub :: extern where
  "ext_stub =
     \<lparr>rs_New = (\<lambda>k m. True),
      rs_Parity = (\<lambda>k m shards. replicate (nat m) (replicate (length (hd shards)) 0)),
      rs_Verify = (\<lambda>k m shards. True),
      rs_Reconstruct = (\<lambda>k m shards. Some shards),
      scan_levels = (\<lambda>levels. [])\<rparr>"

definition uniform_raster :: "int \<Rightarrow> image" where
  "uniform_raster v = \<lparr>img_w = 1280, img_h = 720, img_red = (\<lambda>x y. v)\<rparr>"


section \<open>Properties\<close>

lemma int64_id: "- (2 ^ 63) \<le> x \<Longrightarrow> x < 2 ^ 63 \<Longrightarrow> int64 x = x"
  by (simp add: int64_def)

lemma go_quo_nonneg: "0 \<le> a \<Longrightarrow> 0 < b \<Longrightarrow> a < 2 ^ 63 \<Longrightarrow> go_quo a b = a div b"
proof -
  assume a: "0 \<le> a" "0 < b" "a < 2 ^ 63"
  have "0 \<le> a div b" using a by (simp add: pos_imp_zdiv_nonneg_iff)
  moreover have "a div b \<le> a" using a by (cases "a = 0") (auto intro: int_div_le_self)
  ultimately have "int64 (a div b) = a div b" using a by (intro int64_id) auto
  moreover have "sgn a * sgn b * (\<bar>a\<bar> div \<bar>b\<bar>) = a div b"
    using a by (cases "a = 0") (auto simp: sgn_if)
  ultimately show ?thesis by (simp add: go_quo_def)
qed

lemma go_quo_neg:
  "a < 0 \<Longrightarrow> 0 < b \<Longrightarrow> - (2 ^ 63) \<le> a \<Longrightarrow> go_quo a b = - ((- a) div b)"
proof -
  assume a: "a < 0" "0 < b" "- (2 ^ 63) \<le> a"
  have "0 \<le> (- a) div b" using a by (simp add: pos_imp_zdiv_nonneg_iff)
  moreover have "(- a) div b \<le> - a" using a by (auto intro: int_div_le_self)
  ultimately have "int64 (- ((- a) div b)) = - ((- a) div b)" using a by (intro int64_id) auto
  moreover have "sgn a * sgn b * (\<bar>a\<bar> div \<bar>b\<bar>) = - ((- a) div b)"
    using a by (auto simp: sgn_if)
  ultimately show ?thesis by (simp add: go_quo_def)
qed

lemma div_mult_le_int:
  fixes x ts k :: int
  assumes "0 \<le> x" "0 < ts" "0 \<le> k" "k \<le> ts"
  shows "0 \<le> x div ts * k" and "x div ts * k \<le> x"
proof -
  have q: "0 \<le> x div ts" using assms by (simp add: pos_imp_zdiv_nonneg_iff)
  then show "0 \<le> x div ts * k" using assms by simp
  have "x div ts * k \<le> x div ts * ts" using q assms by (intro mult_left_mono) auto
  also have "\<dots> \<le> x" using assms
    by (metis add.commute div_mult_mod_eq le_add_same_cancel2 pos_mod_sign)
  finally show "x div ts * k \<le> x" .
qed

subsection \<open>Redundancy levels\<close>

text \<open>
  C2 (as stated).  The claim maps the level "high" to 16 data and 48 parity shards.
  \<open>NewECCConfig\<close> returns 32 parity shards for "high"; 48 is only the decoder's
  default for a header whose parity field is zero.
\<close>

theorem NewECCConfig_high_counterexample:
  "NewECCConfig ''high'' \<noteq> \<lparr>DataShards = 16, ParityShards = 48\<rparr>"
  by (simp add: NewECCConfig_def)

text \<open>
  C2 (amended).  \<open>NewECCConfig\<close> maps "low" to (16, 4), "medium" to (16, 8) and
  "high" to (16, 32); for every level the data-shard count is 16 and the parity-shard
  count is 4, 8 or 32.
\<close>

theorem NewECCConfig_levels:
  "NewECCConfig ''low'' = \<lparr>DataShards = 16, ParityShards = 4\<rparr>
   \<and> NewECCConfig ''medium'' = \<lparr>DataShards = 16, ParityShards = 8\<rparr>
   \<and> NewECCConfig ''high'' = \<lparr>DataShards = 16, ParityShards = 32\<rparr>
   \<and> DataShards (NewECCConfig level) = 16
   \<and> (ParityShards (NewECCConfig level) = 4 \<or> ParityShards (NewECCConfig level) = 8
        \<or> ParityShards (NewECCConfig level) = 32)"
  by (simp add: NewECCConfig_def)

subsection \<open>Capacity per frame\<close>

lemma capacity_tail_pos:
  assumes b: "18 \<le> b" "b < 2 ^ 62"
    and k: "0 \<le> DataShards ecc" "DataShards ecc < 2 ^ 31"
    and m: "0 \<le> ParityShards ecc" "ParityShards ecc < 2 ^ 31"
    and ts: "0 < DataShards ecc + ParityShards ecc"
  shows "capacity_tail b ecc isFirst =
     Some (max 0 ((b - 18) div (DataShards ecc + ParityShards ecc) * DataShards ecc
                   - (if isFirst then 20 else 0) - 10))"
proof -
  let ?k = "DataShards ecc"
  let ?t = "DataShards ecc + ParityShards ecc"
  define c where "c = (b - 18) div ?t * ?k"
  have a1: "int64 (b - 18) = b - 18" using b by (intro int64_id) auto
  have t1: "int64 ?t = ?t" using k m by (intro int64_id) auto
  have tpos: "0 < ?t" "?k \<le> ?t" "0 \<le> ?k" using ts m k by auto
  have gq: "go_div (b - 18) ?t = Some ((b - 18) div ?t)"
    using b tpos by (simp add: go_div_def go_quo_nonneg)
  have c0: "0 \<le> c" "c \<le> b - 18"
    using div_mult_le_int[of "b - 18" ?t ?k] b tpos by (auto simp: c_def)
  have ids: "int64 c = c" "int64 (c - 20) = c - 20" "int64 (c - 20 - 10) = c - 20 - 10"
    "int64 (c - 10) = c - 10" "int64 (c - 30) = c - 30"
    using c0 b by (auto intro!: int64_id)
  have "capacity_tail b ecc isFirst =
      (let dataCapacity0 = int64 c;
           dataCapacity1 = (if isFirst then int64 (dataCapacity0 - 20) else dataCapacity0);
           dataCapacity = int64 (dataCapacity1 - 10)
       in Some (if dataCapacity < 0 then 0 else dataCapacity))"
    unfolding capacity_tail_def FrameHeaderSizeBytes_def GlobalHeaderSizeBytes_def c_def
    by (simp add: a1 t1 gq Let_def)
  also have "\<dots> = Some (max 0 (c - (if isFirst then 20 else 0) - 10))"
    unfolding Let_def ids by (cases isFirst) (simp_all add: ids max_def)
  finally show ?thesis by (simp add: c_def)
qed

lemma capacity_tail_neg:
  assumes b: "b < 18" "- (2 ^ 62) \<le> b"
    and k: "0 \<le> DataShards ecc" "DataShards ecc < 2 ^ 31"
    and m: "0 \<le> ParityShards ecc" "ParityShards ecc < 2 ^ 31"
    and ts: "0 < DataShards ecc + ParityShards ecc"
  shows "capacity_tail b ecc isFirst = Some 0"
proof -
  let ?k = "DataShards ecc"
  let ?t = "DataShards ecc + ParityShards ecc"
  define q where "q = (18 - b) div ?t"
  define c where "c = (- q) * ?k"
  have a1: "int64 (b - 18) = b - 18" using b by (intro int64_id) auto
  have t1: "int64 ?t = ?t" using k m by (intro int64_id) auto
  have tpos: "0 < ?t" "?k \<le> ?t" "0 \<le> ?k" using ts m k by auto
  have gq: "go_div (b - 18) ?t = Some (- q)"
    using b tpos go_quo_neg[of "b - 18" ?t] by (simp add: go_div_def q_def)
  have c0: "c \<le> 0" "b - 18 \<le> c"
    using div_mult_le_int[of "18 - b" ?t ?k] b tpos by (auto simp: q_def c_def)
  have ids: "int64 c = c" "int64 (c - 20) = c - 20" "int64 (c - 20 - 10) = c - 20 - 10"
    "int64 (c - 10) = c - 10" "int64 (c - 30) = c - 30"
    using c0 b by (auto intro!: int64_id)
  have "capacity_tail b ecc isFirst =
      (let dataCapacity0 = int64 c;
           dataCapacity1 = (if isFirst then int64 (dataCapacity0 - 20) else dataCapacity0);
           dataCapacity = int64 (dataCapacity1 - 10)
       in Some (if dataCapacity < 0 then 0 else dataCapacity))"
    unfolding capacity_tail_def FrameHeaderSizeBytes_def GlobalHeaderSizeBytes_def c_def
    by (simp add: a1 t1 gq Let_def)
  also have "\<dots> = Some 0"
    unfolding Let_def ids using c0 by (cases isFirst) (simp_all add: ids)
  finally show ?thesis .
qed


lemma CapacityPerFrame_tail:
  "CapacityPerFrame fc ecc f =
     (case GridSize fc of None \<Rightarrow> None
      | Some (cols, rows) \<Rightarrow> capacity_tail (bytesInFrame_of fc (int64 (cols * rows))) ecc f)"
  by (simp add: CapacityPerFrame_def capacity_tail_def Let_def split: option.splits)

lemma spec_capacity_neg:
  fixes b t k g :: int
  assumes "b < 18" "0 < t" "0 \<le> k" "0 \<le> g"
  shows "max 0 ((b - 18) div t * k - g - 10) = 0"
proof -
  have "(b - 18) div t < 0" using assms by (simp add: div_neg_pos_less0)
  then have "(b - 18) div t * k \<le> 0" using assms by (simp add: mult_nonpos_nonneg)
  then show ?thesis using assms by simp
qed

lemma mult_bound_62:
  fixes a b :: int
  assumes "0 \<le> a" "a < 2 ^ 31" "0 \<le> b" "b < 2 ^ 31"
  shows "0 \<le> a * b" "a * b < 2 ^ 62"
proof -
  show "0 \<le> a * b" using assms by simp
  have "a * b \<le> (2 ^ 31 - 1) * (2 ^ 31 - 1)" using assms by (intro mult_mono) auto
  then show "a * b < 2 ^ 62" by simp
qed

text \<open>
  C3.  For a frame configuration with a positive macro size and pixel dimensions below
  \<open>2^31\<close>, and shard counts \<open>k, m \<ge> 0\<close> below \<open>2^31\<close> with \<open>k + m > 0\<close> (so that
  the divisions are defined and nothing leaves the 64-bit range), CapacityPerFrame
  returns \<open>max(0, floor((bytesPerFrame - 18) / (k+m)) * k - (20 if first) - 10)\<close>,
  with bytesPerFrame the floor of totalMacros/8 in 2-level mode and of totalMacros/4
  otherwise.
\<close>

theorem CapacityPerFrame_formula:
  assumes M: "0 < MacroSize fc"
    and W: "0 \<le> Width fc" "Width fc < 2 ^ 31"
    and H: "0 \<le> Height fc" "Height fc < 2 ^ 31"
    and C: "0 \<le> CalibrationHeight fc" "CalibrationHeight fc < 2 ^ 31"
    and k: "0 \<le> DataShards ecc" "DataShards ecc < 2 ^ 31"
    and m: "0 \<le> ParityShards ecc" "ParityShards ecc < 2 ^ 31"
    and ts: "0 < DataShards ecc + ParityShards ecc"
  shows "CapacityPerFrame fc ecc isFirst =
     Some (max 0 ((bytesPerFrame_spec fc - 18) div (DataShards ecc + ParityShards ecc)
                     * DataShards ecc
                   - (if isFirst then 20 else 0) - 10))"
proof -
  let ?cols = "Width fc div MacroSize fc"
  let ?a = "Height fc - CalibrationHeight fc"
  let ?t = "DataShards ecc + ParityShards ecc"
  have cols: "go_div (Width fc) (MacroSize fc) = Some ?cols"
    using M W by (simp add: go_div_def go_quo_nonneg)
  have colsb: "0 \<le> ?cols" "?cols < 2 ^ 31"
  proof -
    show "0 \<le> ?cols" using M W by (simp add: pos_imp_zdiv_nonneg_iff)
    have "?cols \<le> Width fc" using M W by (cases "Width fc = 0") (auto intro: int_div_le_self)
    then show "?cols < 2 ^ 31" using W by simp
  qed
  have av: "int64 ?a = ?a" using H C by (intro int64_id) auto
  have tpos: "0 < ?t" "0 \<le> DataShards ecc" using ts k by auto
  have g0: "(0::int) \<le> (if isFirst then 20 else 0)" by simp
  show ?thesis
  proof (cases "0 \<le> ?a")
    case True
    let ?rows = "?a div MacroSize fc"
    have rows: "go_div ?a (MacroSize fc) = Some ?rows"
      using M True H C by (simp add: go_div_def go_quo_nonneg)
    have rowsb: "0 \<le> ?rows" "?rows < 2 ^ 31"
    proof -
      show "0 \<le> ?rows" using M True by (simp add: pos_imp_zdiv_nonneg_iff)
      have "?rows \<le> ?a" using M True by (cases "?a = 0") (auto intro: int_div_le_self)
      then show "?rows < 2 ^ 31" using H C by simp
    qed
    have tot: "0 \<le> ?cols * ?rows" "?cols * ?rows < 2 ^ 62"
      using mult_bound_62[OF colsb rowsb] by auto
    have toti: "int64 (?cols * ?rows) = ?cols * ?rows"
      using tot by (intro int64_id) auto
    have grid: "GridSize fc = Some (?cols, ?rows)"
      by (simp add: GridSize_def cols av rows)
    have bytes: "bytesInFrame_of fc (?cols * ?rows) = bytesPerFrame_spec fc"
      using tot by (simp add: bytesInFrame_of_def bytesPerFrame_spec_def go_quo_nonneg Let_def)
    have bb: "bytesPerFrame_spec fc < 2 ^ 62" "0 \<le> bytesPerFrame_spec fc"
    proof -
      have "bytesPerFrame_spec fc \<le> ?cols * ?rows"
        using tot by (cases "?cols * ?rows = 0")
          (auto simp: bytesPerFrame_spec_def Let_def intro: int_div_le_self)
      then show "bytesPerFrame_spec fc < 2 ^ 62" using tot by simp
      show "0 \<le> bytesPerFrame_spec fc"
        using tot by (simp add: bytesPerFrame_spec_def Let_def pos_imp_zdiv_nonneg_iff)
    qed
    have step: "CapacityPerFrame fc ecc isFirst = capacity_tail (bytesPerFrame_spec fc) ecc isFirst"
      by (simp add: CapacityPerFrame_tail grid toti bytes)
    show ?thesis
    proof (cases "18 \<le> bytesPerFrame_spec fc")
      case True
      then show ?thesis
        unfolding step using capacity_tail_pos[OF True bb(1) k m ts] by simp
    next
      case False
      then have lt: "bytesPerFrame_spec fc < 18" by simp
      have "capacity_tail (bytesPerFrame_spec fc) ecc isFirst = Some 0"
        using bb by (intro capacity_tail_neg[OF lt _ k m ts]) auto
      then show ?thesis
        unfolding step using spec_capacity_neg[OF lt tpos g0] by simp
    qed
  next
    case False
    then have neg: "?a < 0" by simp
    define r where "r = (- ?a) div MacroSize fc"
    have rows: "go_div ?a (MacroSize fc) = Some (- r)"
      using M neg H C go_quo_neg[of ?a "MacroSize fc"] by (simp add: go_div_def r_def)
    have rb: "0 \<le> r" "r < 2 ^ 31"
    proof -
      show "0 \<le> r" using M neg by (simp add: r_def pos_imp_zdiv_nonneg_iff)
      have "r \<le> - ?a" unfolding r_def using M neg by (auto intro: int_div_le_self)
      then show "r < 2 ^ 31" using H C by simp
    qed
    have tot: "0 \<le> ?cols * r" "?cols * r < 2 ^ 62"
      using mult_bound_62[OF colsb rb] by auto
    have toti: "int64 (- (?cols * r)) = - (?cols * r)"
      using tot by (intro int64_id) auto
    have grid: "GridSize fc = Some (?cols, - r)"
      by (simp add: GridSize_def cols av rows)
    define bg where "bg = bytesInFrame_of fc (- (?cols * r))"
    have bgb: "bg \<le> 0" "- (2 ^ 62) \<le> bg"
    proof -
      have d: "0 < d \<Longrightarrow> go_quo (- (?cols * r)) d \<le> 0 \<and> - (2 ^ 62) \<le> go_quo (- (?cols * r)) d" for d
      proof (cases "?cols * r = 0")
        case True
        show ?thesis unfolding True by (simp add: go_quo_def int64_def)
      next
        case False
        assume dpos: "0 < d"
        from False tot(1) have p: "0 < ?cols * r" by (rule order.not_eq_order_implies_strict[OF not_sym])
        have e: "go_quo (- (?cols * r)) d = - ((?cols * r) div d)"
          using p tot dpos go_quo_neg[of "- (?cols * r)" d] by simp
        have "0 \<le> (?cols * r) div d" using dpos tot by (simp add: pos_imp_zdiv_nonneg_iff)
        moreover have "(?cols * r) div d \<le> ?cols * r" using p by (auto intro: int_div_le_self)
        ultimately show ?thesis using e tot by simp
      qed
      show "bg \<le> 0" "- (2 ^ 62) \<le> bg"
        using d[of 8] d[of 4] by (auto simp: bg_def bytesInFrame_of_def)
    qed
    have step: "CapacityPerFrame fc ecc isFirst = capacity_tail bg ecc isFirst"
      by (simp add: CapacityPerFrame_tail grid toti bg_def)
    have go0: "capacity_tail bg ecc isFirst = Some 0"
      using bgb by (intro capacity_tail_neg[OF _ _ k m ts]) auto
    have rs: "?a div MacroSize fc < 0" using neg M by (simp add: div_neg_pos_less0)
    have "?cols * (?a div MacroSize fc) \<le> 0"
      using colsb rs by (simp add: mult_nonneg_nonpos)
    then have "bytesPerFrame_spec fc \<le> 0"
      by (simp add: bytesPerFrame_spec_def Let_def div_nonpos_pos_le0)
    then have lt: "bytesPerFrame_spec fc < 18" by simp
    show ?thesis
      unfolding step go0 using spec_capacity_neg[OF lt tpos g0] by simp
  qed
qed

theorem CapacityPerFrame_formula_witness:
  "0 < MacroSize DefaultFrameConfig
   \<and> 0 \<le> Width DefaultFrameConfig \<and> Width DefaultFrameConfig < 2 ^ 31
   \<and> 0 \<le> Height DefaultFrameConfig \<and> Height DefaultFrameConfig < 2 ^ 31
   \<and> 0 \<le> CalibrationHeight DefaultFrameConfig
   \<and> CalibrationHeight DefaultFrameConfig < 2 ^ 31
   \<and> 0 \<le> DataShards (NewECCConfig ''low'') \<and> DataShards (NewECCConfig ''low'') < 2 ^ 31
   \<and> 0 \<le> ParityShards (NewECCConfig ''low'')
   \<and> ParityShards (NewECCConfig ''low'') < 2 ^ 31
   \<and> 0 < DataShards (NewECCConfig ''low'') + ParityShards (NewECCConfig ''low'')
   \<and> CapacityPerFrame DefaultFrameConfig (NewECCConfig ''low'') True = Some 306
   \<and> CapacityPerFrame DefaultFrameConfig (NewECCConfig ''low'') False = Some 326"
  using CapacityPerFrame_formula[of DefaultFrameConfig "NewECCConfig ''low''" True]
    CapacityPerFrame_formula[of DefaultFrameConfig "NewECCConfig ''low''" False]
  by (simp add: DefaultFrameConfig_def NewECCConfig_def bytesPerFrame_spec_def)

subsection \<open>Header decoding\<close>

lemma be_word_single: "be_word [b] = (b :: byte)"
  by (simp add: be_word_def)

lemma DecodeHeader_ok:
  assumes "18 \<le> length data"
  shows "DecodeHeader data =
       Inr \<lparr>Magic = take 4 data,
            FrameIndex = be_word (take 4 (drop 4 data)),
            DataSize = be_word (take 2 (drop 8 data)),
            DataCRC = be_word (take 4 (drop 10 data)),
            HasGlobal = data ! 14,
            HdrParityShards = data ! 15,
            GlobalOffset = be_word (take 2 (drop 16 data)),
            GlobalMeta = emptyGlobalHeader\<rparr>"
proof -
  have ne: "data \<noteq> []" using assms by auto
  have t1: "take (Suc 0) (drop 14 data) = [data ! 14]" "take (Suc 0) (drop 15 data) = [data ! 15]"
    using assms by (simp_all add: take_Suc_conv_app_nth)
  show ?thesis
    using assms ne
    by (auto simp add: DecodeHeader_def FrameHeaderSizeBytes_def reader_Read_def binary_Read_def
        t1 be_word_single)
qed

text \<open>
  C10.  DecodeHeader returns an error exactly when its input is shorter than 18 bytes;
  on every input of at least 18 bytes it returns the parsed fields, whatever the four
  Magic bytes are (the Magic is compared only by the callers).
\<close>

theorem DecodeHeader_error_iff_short:
  "((\<exists>e. DecodeHeader data = Inl e) \<longleftrightarrow> length data < 18)
   \<and> (18 \<le> length data \<longrightarrow>
        DecodeHeader data =
          Inr \<lparr>Magic = take 4 data,
               FrameIndex = be_word (take 4 (drop 4 data)),
               DataSize = be_word (take 2 (drop 8 data)),
               DataCRC = be_word (take 4 (drop 10 data)),
               HasGlobal = data ! 14,
               HdrParityShards = data ! 15,
               GlobalOffset = be_word (take 2 (drop 16 data)),
               GlobalMeta = emptyGlobalHeader\<rparr>)"
proof (cases "length data < 18")
  case True
  then show ?thesis by (simp add: DecodeHeader_def FrameHeaderSizeBytes_def)
next
  case False
  then have "18 \<le> length data" by simp
  from DecodeHeader_ok[OF this] False show ?thesis by simp
qed

theorem DecodeHeader_error_iff_short_witness:
  "(\<exists>e. DecodeHeader [0, 0, 0, 0, 0, 0, 0, 0, 0, 0, 0, 0, 0, 0, 0, 0, 0] = Inl e)
   \<and> Magic (projr (DecodeHeader [0, 0, 0, 0, 0, 0, 0, 0, 0, 0, 0, 0, 0, 0, 0, 0, 0, 0])) = [0, 0, 0, 0]
   \<and> [0, 0, 0, 0] \<noteq> NCC1
   \<and> \<not> (\<exists>e. DecodeHeader [0, 0, 0, 0, 0, 0, 0, 0, 0, 0, 0, 0, 0, 0, 0, 0, 0, 0] = Inl e)"
  using DecodeHeader_error_iff_short[of "[0, 0, 0, 0, 0, 0, 0, 0, 0, 0, 0, 0, 0, 0, 0, 0, 0]"]
    DecodeHeader_error_iff_short[of "[0, 0, 0, 0, 0, 0, 0, 0, 0, 0, 0, 0, 0, 0, 0, 0, 0, 0]"]
  by (simp add: NCC1_def)

subsection \<open>Frame count and payload slices\<close>

lemma those_map_Some:
  "(\<And>x. x \<in> set xs \<Longrightarrow> f x = Some (g x)) \<Longrightarrow> those (map f xs) = Some (map g xs)"
  by (induction xs) auto

lemma ceiling_div_int:
  fixes x c :: int
  assumes "0 < c"
  shows "\<lceil>real_of_int x / real_of_int c\<rceil> = (x + c - 1) div c"
proof -
  define q where "q = (x + c - 1) div c"
  have m: "x + c - 1 = q * c + (x + c - 1) mod c" by (simp add: q_def)
  have m0: "0 \<le> (x + c - 1) mod c" "(x + c - 1) mod c < c" using assms by simp_all
  have lo: "(q - 1) * c < x" using m m0 by (simp add: algebra_simps)
  have hi: "x \<le> q * c" using m m0 by (simp add: algebra_simps)
  have "real_of_int q - 1 < real_of_int x / real_of_int c"
  proof -
    have "real_of_int ((q - 1) * c) < real_of_int x" using lo by linarith
    then show ?thesis using assms by (simp add: pos_less_divide_eq)
  qed
  moreover have "real_of_int x / real_of_int c \<le> real_of_int q"
  proof -
    have "real_of_int x \<le> real_of_int (q * c)" using hi by linarith
    then show ?thesis using assms by (simp add: pos_divide_le_eq)
  qed
  ultimately show ?thesis unfolding q_def[symmetric] by (simp add: ceiling_eq_iff)
qed


lemma totalFrames_of_eq:
  assumes c0: "0 \<le> c0" "c0 < 2 ^ 61" and cn: "0 < cn" "cn < 2 ^ 61"
    and L: "0 \<le> L" "L < 2 ^ 61"
  shows "totalFrames_of L c0 cn = Some (1 + (max 0 (L - c0) + cn - 1) div cn)"
proof (cases "L > c0")
  case True
  let ?r = "L - c0"
  have r: "0 < ?r" "?r < 2 ^ 61" using True c0 L by auto
  have i1: "int64 ?r = ?r" using r by (intro int64_id) auto
  have i2: "int64 (?r + cn) = ?r + cn" using r cn by (intro int64_id) auto
  have i3: "int64 (?r + cn - 1) = ?r + cn - 1" using r cn by (intro int64_id) auto
  have q: "go_div (?r + cn - 1) cn = Some ((?r + cn - 1) div cn)"
    using r cn by (simp add: go_div_def go_quo_nonneg)
  have qb: "0 \<le> (?r + cn - 1) div cn" "(?r + cn - 1) div cn \<le> ?r + cn - 1"
    using r cn int_div_le_self[of "?r + cn - 1" cn] by (auto simp: pos_imp_zdiv_nonneg_iff)
  have i4: "int64 (1 + (?r + cn - 1) div cn) = 1 + (?r + cn - 1) div cn"
    using qb r cn by (intro int64_id) auto
  show ?thesis using True r
    by (simp add: totalFrames_of_def i1 i2 i3 i4 q Let_def max_def)
next
  case False
  have "(cn - 1) div cn = 0" using cn by simp
  then show ?thesis using False
    by (simp add: totalFrames_of_def Let_def max_def)
qed

lemma frameData_of_first:
  "frameData_of P c0 cn 0 = (if 0 \<le> c0 then Some (take (nat (min c0 (int (length P)))) P) else None)"
  by (auto simp: frameData_of_def go_slice_def Let_def min_def)

lemma frameData_of_later:
  assumes c0: "0 \<le> c0" "c0 < 2 ^ 61" and cn: "0 < cn" "cn < 2 ^ 61"
    and L: "int (length P) < 2 ^ 61"
    and i: "0 < i" "(i - 1) * cn < int (length P) - c0"
  shows "frameData_of P c0 cn i = Some (take (nat cn) (drop (nat (c0 + (i - 1) * cn)) P))"
proof -
  let ?L = "int (length P)"
  define p where "p = (i - 1) * cn"
  let ?s = "c0 + p"
  have ib: "0 \<le> i - 1" using i by simp
  have pb: "0 \<le> p" "p < ?L - c0" using ib cn i by (simp_all add: p_def)
  have ip: "i - 1 \<le> p" using ib cn by (simp add: p_def mult_le_cancel_left1)
  have i1: "int64 (i - 1) = i - 1" using ib ip pb L c0 by (intro int64_id) auto
  have i2: "int64 p = p" using pb L c0 by (intro int64_id) auto
  have i3: "int64 ?s = ?s" using pb L c0 by (intro int64_id) auto
  have i4: "int64 (?s + cn) = ?s + cn" using pb L c0 cn by (intro int64_id) auto
  have sL: "?s < ?L" "0 \<le> ?s" using pb c0 by auto
  have "frameData_of P c0 cn i = go_slice P ?s (if ?s + cn > ?L then ?L else ?s + cn)"
    using i(1) sL unfolding frameData_of_def i1 p_def[symmetric] i2 i3 i4 Let_def by simp
  also have "\<dots> = Some (take (nat cn) (drop (nat ?s) P))"
  proof (cases "?s + cn > ?L")
    case True
    then have "length (drop (nat ?s) P) \<le> nat cn" using sL by simp
    then have "take (nat cn) (drop (nat ?s) P) = drop (nat ?s) P" by simp
    moreover have "take (nat (?L - ?s)) (drop (nat ?s) P) = drop (nat ?s) P"
      using sL by simp
    ultimately show ?thesis using True sL by (simp add: go_slice_def)
  next
    case False
    then show ?thesis using sL cn by (simp add: go_slice_def)
  qed
  finally show ?thesis by (simp add: p_def)
qed

text \<open>
  C4.  For every payload \<open>P\<close> and capacities \<open>C\<^sub>0 \<ge> 0\<close> and \<open>C\<^sub>n > 0\<close> (all below \<open>2^61\<close>,
  so that no index computation wraps), the dispatcher produces exactly
  \<open>1 + ceil(max(0, |P| - C\<^sub>0) / C\<^sub>n)\<close> jobs; job 0 carries \<open>P[0 : min(C\<^sub>0, |P|)]\<close> and
  job \<open>i > 0\<close> carries \<open>P[C\<^sub>0 + (i-1) C\<^sub>n : C\<^sub>0 + i C\<^sub>n]\<close>, cut at the end of \<open>P\<close>.
\<close>

theorem frame_jobs_layout:
  assumes c0: "0 \<le> c0" "c0 < 2 ^ 61" and cn: "0 < cn" "cn < 2 ^ 61"
    and L: "int (length P) < 2 ^ 61"
  shows "\<exists>jobs. frame_jobs P c0 cn = Some jobs
     \<and> int (length jobs)
         = 1 + \<lceil>real_of_int (max 0 (int (length P) - c0)) / real_of_int cn\<rceil>
     \<and> (\<forall>i < length jobs.
           jobs ! i =
             (int i,
              if i = 0 then take (nat (min c0 (int (length P)))) P
              else take (nat cn) (drop (nat (c0 + (int i - 1) * cn)) P)))"
proof -
  let ?L = "int (length P)"
  let ?r = "max 0 (?L - c0)"
  define n where "n = 1 + (?r + cn - 1) div cn"
  let ?g = "\<lambda>i. (i, if i = 0 then take (nat (min c0 ?L)) P
                    else take (nat cn) (drop (nat (c0 + (i - 1) * cn)) P))"
  have tf: "totalFrames_of ?L c0 cn = Some n"
    using totalFrames_of_eq[OF c0 cn _ L] by (simp add: n_def)
  have npos: "1 \<le> n" using cn by (simp add: n_def pos_imp_zdiv_nonneg_iff)
  have each: "map_option (Pair i) (frameData_of P c0 cn i) = Some (?g i)"
    if "i \<in> set [0 .. n - 1]" for i
  proof (cases "i = 0")
    case True
    then show ?thesis using c0 by (simp add: frameData_of_first)
  next
    case False
    with that have i: "0 < i" "i - 1 < (?r + cn - 1) div cn" by (auto simp: n_def)
    have "(i - 1) * cn \<le> ((?r + cn - 1) div cn - 1) * cn"
      using i cn by (intro mult_right_mono) auto
    also have "\<dots> = (?r + cn - 1) div cn * cn - cn" by (simp add: algebra_simps)
    also have "\<dots> \<le> (?r + cn - 1) - cn"
    proof -
      have "(?r + cn - 1) div cn * cn \<le> ?r + cn - 1"
        using cn by (metis add.commute div_mult_mod_eq le_add_same_cancel2 pos_mod_sign)
      then show ?thesis by simp
    qed
    finally have lt: "(i - 1) * cn < ?r" by simp
    have rpos: "0 < ?r"
    proof -
      have "0 \<le> (i - 1) * cn" using i cn by simp
      with lt show ?thesis by simp
    qed
    then have "?r = ?L - c0" by (simp add: max_def split: if_splits)
    with lt have "(i - 1) * cn < ?L - c0" by simp
    from frameData_of_later[OF c0 cn L i(1) this] False show ?thesis by simp
  qed
  have jobs: "frame_jobs P c0 cn = Some (map ?g [0 .. n - 1])"
    unfolding frame_jobs_def tf using those_map_Some[of "[0 .. n - 1]", OF each]
    by simp
  have len: "int (length (map ?g [0 .. n - 1])) = n" using npos by simp
  have ceil: "\<lceil>real_of_int ?r / real_of_int cn\<rceil> = (?r + cn - 1) div cn"
    using cn(1) by (rule ceiling_div_int)
  have nth: "map ?g [0 .. n - 1] ! i =
      (int i, if i = 0 then take (nat (min c0 ?L)) P
              else take (nat cn) (drop (nat (c0 + (int i - 1) * cn)) P))"
    if "i < length (map ?g [0 .. n - 1])" for i
    using that by simp
  show ?thesis
  proof (intro exI conjI allI impI)
    show "frame_jobs P c0 cn = Some (map ?g [0 .. n - 1])" by (rule jobs)
    show "int (length (map ?g [0 .. n - 1])) = 1 + \<lceil>real_of_int ?r / real_of_int cn\<rceil>"
      using len ceil by (simp add: n_def)
    show "map ?g [0 .. n - 1] ! i =
      (int i, if i = 0 then take (nat (min c0 ?L)) P
              else take (nat cn) (drop (nat (c0 + (int i - 1) * cn)) P))"
      if "i < length (map ?g [0 .. n - 1])" for i
      using that by (rule nth)
  qed
qed

theorem frame_jobs_layout_witness:
  "(0::int) \<le> 3 \<and> (3::int) < 2 ^ 61 \<and> (0::int) < 4 \<and> (4::int) < 2 ^ 61
   \<and> int (length [0, 1, 2, 3, 4, 5, 6, 7, 8, 9 :: byte]) < 2 ^ 61
   \<and> frame_jobs [0, 1, 2, 3, 4, 5, 6, 7, 8, 9] 3 4
       = Some [(0, [0, 1, 2]), (1, [3, 4, 5, 6]), (2, [7, 8, 9])]"
proof -
  have e: "frame_jobs [0, 1, 2, 3, 4, 5, 6, 7, 8, 9] 3 4
       = Some [(0, [0, 1, 2]), (1, [3, 4, 5, 6]), (2, [7, 8, 9])]"
    by code_simp
  show ?thesis
    using frame_jobs_layout[of 3 4 "[0, 1, 2, 3, 4, 5, 6, 7, 8, 9]"] e by simp
qed

subsection \<open>Ordered writes of the collector\<close>

lemma drain_inv:
  assumes "coll_inv m S st" "S \<subseteq> dom m" "\<forall>n. pipe_ok n"
  shows "fst (drain pipe_ok st) = None
     \<and> coll_inv m S (snd (drain pipe_ok st))
     \<and> nextFrameIndex (snd (drain pipe_ok st)) \<notin> S"
  using assms
proof (induction pipe_ok st rule: drain.induct)
  case (1 pipe_ok st)
  let ?n = "nextFrameIndex st"
  show ?case
  proof (cases "map_of (pending st) ?n")
    case None
    with "1.prems" have "?n \<notin> S"
      by (auto simp: coll_inv_def split: if_splits)
    with None "1.prems"(1) show ?thesis by (simp add: drain.simps[of pipe_ok st])
  next
    case (Some pixels)
    let ?st' = "\<lparr>pending = AList.delete ?n (pending st), nextFrameIndex = ?n + 1,
                  written = written st @ [(?n, pixels)]\<rparr>"
    from Some "1.prems" have nS: "?n \<in> S" and mn: "m ?n = Some pixels"
      by (auto simp: coll_inv_def split: if_splits)
    have n0: "0 \<le> ?n" using "1.prems" by (simp add: coll_inv_def)
    have up: "[0 .. ?n] = [0 .. ?n - 1] @ [?n]"
      using n0 by (rule upto_rec2)
    have inv: "{0 ..< ?n} \<subseteq> S"
      "written st = map (\<lambda>i. (i, the (m i))) [0 .. ?n - 1]"
      "\<And>k. map_of (pending st) k = (if k \<in> S \<and> k \<notin> {0 ..< ?n} then m k else None)"
      using "1.prems"(1) by (simp_all add: coll_inv_def)
    have inv': "coll_inv m S ?st'"
      unfolding coll_inv_def
    proof (intro conjI allI)
      show "0 \<le> nextFrameIndex ?st'" using n0 by simp
      have "{0 ..< ?n + 1} = insert ?n {0 ..< ?n}" using n0 by auto
      then show "{0 ..< nextFrameIndex ?st'} \<subseteq> S" using inv(1) nS by simp
      show "written ?st' = map (\<lambda>i. (i, the (m i))) [0 .. nextFrameIndex ?st' - 1]"
        using inv(2) mn by (simp add: up)
      show "map_of (pending ?st') k
            = (if k \<in> S \<and> k \<notin> {0 ..< nextFrameIndex ?st'} then m k else None)" for k
        using inv(3)[of k] n0 by (auto simp: AList.delete_conv)
    qed
    have ok: "pipe_ok (length (written st))" using "1.prems"(3) by blast
    have "drain pipe_ok st = drain pipe_ok ?st'"
      using Some ok by (simp add: drain.simps[of pipe_ok st])
    moreover have "fst (drain pipe_ok ?st') = None
       \<and> coll_inv m S (snd (drain pipe_ok ?st'))
       \<and> nextFrameIndex (snd (drain pipe_ok ?st')) \<notin> S"
      using "1.IH"[OF Some _ inv' "1.prems"(2,3)] ok by blast
    ultimately show ?thesis by simp
  qed
qed

lemma collect_inv:
  assumes "coll_inv m S st" "nextFrameIndex st \<notin> S"
    and "distinct (map Index rs)" "Index ` set rs \<inter> S = {}"
    and "\<And>r. r \<in> set rs \<Longrightarrow> Err r = None \<and> m (Index r) = Some (Pixels r)"
    and "S \<subseteq> dom m" "\<forall>n. pipe_ok n"
  shows "fst (collect pipe_ok st rs) = None
     \<and> coll_inv m (S \<union> Index ` set rs) (snd (collect pipe_ok st rs))
     \<and> nextFrameIndex (snd (collect pipe_ok st rs)) \<notin> S \<union> Index ` set rs"
  using assms
proof (induction rs arbitrary: st S)
  case Nil
  then show ?case by simp
next
  case (Cons r rs)
  let ?j = "Index r"
  let ?st1 = "st\<lparr>pending := AList.update ?j (Pixels r) (pending st)\<rparr>"
  let ?S1 = "insert ?j S"
  have r: "Err r = None" "m ?j = Some (Pixels r)" using Cons.prems(5)[of r] by auto
  have jS: "?j \<notin> S" using Cons.prems(4) by auto
  have jn: "?j \<notin> {0 ..< nextFrameIndex st}"
    using jS Cons.prems(1) by (auto simp: coll_inv_def)
  have inv1: "coll_inv m ?S1 ?st1"
    using Cons.prems(1) r jn unfolding coll_inv_def
    by (auto simp: AList.update_conv')
  have sub1: "?S1 \<subseteq> dom m" using Cons.prems(6) r by auto
  obtain e st2 where d: "drain pipe_ok ?st1 = (e, st2)" by (cases "drain pipe_ok ?st1")
  from drain_inv[OF inv1 sub1 Cons.prems(7)] d
  have e: "e = None" and inv2: "coll_inv m ?S1 st2" and n2: "nextFrameIndex st2 \<notin> ?S1"
    by auto
  have step: "collect pipe_ok st (r # rs) = collect pipe_ok st2 rs"
    using r d e by simp
  have "fst (collect pipe_ok st2 rs) = None
     \<and> coll_inv m (?S1 \<union> Index ` set rs) (snd (collect pipe_ok st2 rs))
     \<and> nextFrameIndex (snd (collect pipe_ok st2 rs)) \<notin> ?S1 \<union> Index ` set rs"
  proof (rule Cons.IH[OF inv2 n2])
    show "distinct (map Index rs)" using Cons.prems(3) by simp
    show "Index ` set rs \<inter> ?S1 = {}" using Cons.prems(3,4) by auto
    show "Err x = None \<and> m (Index x) = Some (Pixels x)" if "x \<in> set rs" for x
      using that Cons.prems(5)[of x] by simp
    show "?S1 \<subseteq> dom m" by (rule sub1)
    show "\<forall>n. pipe_ok n" by (rule Cons.prems(7))
  qed
  then show ?case unfolding step by simp
qed


lemma coll_inv_collector0: "coll_inv m {} collector0"
  by (simp add: coll_inv_def collector0_def)

lemma collect_prefix:
  assumes d: "distinct (map Index rs)" and e: "\<forall>r \<in> set rs. Err r = None"
    and ok: "\<forall>k. pipe_ok k" and j: "j \<le> length rs"
  defines "m \<equiv> map_of (map (\<lambda>r. (Index r, Pixels r)) rs)"
  shows "fst (collect pipe_ok collector0 (take j rs)) = None
     \<and> coll_inv m (Index ` set (take j rs)) (snd (collect pipe_ok collector0 (take j rs)))
     \<and> nextFrameIndex (snd (collect pipe_ok collector0 (take j rs))) \<notin> Index ` set (take j rs)"
proof -
  have m: "m (Index r) = Some (Pixels r)" if "r \<in> set rs" for r
  proof -
    have "distinct (map fst (map (\<lambda>r. (Index r, Pixels r)) rs))"
      using d by (simp add: comp_def)
    moreover have "(Index r, Pixels r) \<in> set (map (\<lambda>r. (Index r, Pixels r)) rs)"
      using that by auto
    ultimately show ?thesis unfolding m_def by (rule map_of_is_SomeI)
  qed
  have "fst (collect pipe_ok collector0 (take j rs)) = None
     \<and> coll_inv m ({} \<union> Index ` set (take j rs)) (snd (collect pipe_ok collector0 (take j rs)))
     \<and> nextFrameIndex (snd (collect pipe_ok collector0 (take j rs))) \<notin> {} \<union> Index ` set (take j rs)"
  proof (rule collect_inv[OF coll_inv_collector0])
    show "nextFrameIndex (collector0 :: 'a collector) \<notin> {}" by simp
    show "distinct (map Index (take j rs))" using d by (simp add: take_map[symmetric])
    show "Index ` set (take j rs) \<inter> {} = {}" by simp
    show "Err r = None \<and> m (Index r) = Some (Pixels r)" if "r \<in> set (take j rs)" for r
      using that e m[of r] by (auto dest: in_set_takeD)
    show "{} \<subseteq> dom m" by simp
    show "\<forall>n. pipe_ok n" by (rule ok)
  qed
  then show ?thesis by simp
qed

text \<open>
  C5.  Let the results of the frames \<open>0, \<dots>, n - 1\<close> arrive in any order \<open>rs\<close>, each
  once and without a worker error, and let the pipe take every write.  Then the
  collector writes the rasters of the frames \<open>0, 1, \<dots>, n - 1\<close> in this order and ends
  with an empty pending map; and after every prefix of the arrivals the written
  indices are \<open>0, \<dots>, nextFrameIndex - 1\<close>, while the pending map holds exactly the
  results that arrived with an index beyond \<open>nextFrameIndex\<close>, whose own result has
  not arrived yet.
\<close>

theorem collector_writes_in_order:
  assumes d: "distinct (map Index rs)"
    and all: "Index ` set rs = {0 ..< n}"
    and e: "\<forall>r \<in> set rs. Err r = None"
    and ok: "\<forall>k. pipe_ok k"
  shows "fst (collect pipe_ok collector0 rs) = None
     \<and> written (snd (collect pipe_ok collector0 rs))
         = map (\<lambda>i. (i, frame_pixels rs i)) [0 .. n - 1]
     \<and> pending (snd (collect pipe_ok collector0 rs)) = []
     \<and> (\<forall>j \<le> length rs.
           let st = snd (collect pipe_ok collector0 (take j rs)) in
             map fst (written st) = [0 .. nextFrameIndex st - 1]
             \<and> fst ` set (pending st)
                 = {k \<in> Index ` set (take j rs). nextFrameIndex st \<le> k}
             \<and> nextFrameIndex st \<notin> Index ` set (take j rs))"
proof -
  define m where "m = map_of (map (\<lambda>r. (Index r, Pixels r)) rs)"
  have pre: "fst (collect pipe_ok collector0 (take j rs)) = None
     \<and> coll_inv m (Index ` set (take j rs)) (snd (collect pipe_ok collector0 (take j rs)))
     \<and> nextFrameIndex (snd (collect pipe_ok collector0 (take j rs))) \<notin> Index ` set (take j rs)"
    if "j \<le> length rs" for j
    unfolding m_def using collect_prefix[OF d e ok that] .
  have dom: "Index ` set rs \<subseteq> dom m"
    unfolding m_def by (auto simp: dom_map_of_conv_image_fst image_image)
  have keys: "fst ` set (pending st) = {k \<in> S. nextFrameIndex st \<le> k}"
    if "coll_inv m S st" "S \<subseteq> Index ` set rs" for S st
  proof -
    have "fst ` set (pending st) = dom (map_of (pending st))"
      by (simp add: dom_map_of_conv_image_fst)
    also have "\<dots> = {k \<in> S. k \<notin> {0 ..< nextFrameIndex st}}"
    proof -
      have pl: "map_of (pending st) k
          = (if k \<in> S \<and> k \<notin> {0 ..< nextFrameIndex st} then m k else None)" for k
        using that(1) by (simp add: coll_inv_def)
      have "m k \<noteq> None" if "k \<in> S" for k
        using that \<open>S \<subseteq> Index ` set rs\<close> dom by blast
      then show ?thesis unfolding dom_def pl by auto
    qed
    also have "\<dots> = {k \<in> S. nextFrameIndex st \<le> k}"
      using that(2) all by auto
    finally show ?thesis .
  qed
  have prefix: "\<forall>j \<le> length rs.
           let st = snd (collect pipe_ok collector0 (take j rs)) in
             map fst (written st) = [0 .. nextFrameIndex st - 1]
             \<and> fst ` set (pending st)
                 = {k \<in> Index ` set (take j rs). nextFrameIndex st \<le> k}
             \<and> nextFrameIndex st \<notin> Index ` set (take j rs)"
  proof (intro allI impI)
    fix j assume j: "j \<le> length rs"
    let ?st = "snd (collect pipe_ok collector0 (take j rs))"
    from pre[OF j] have inv: "coll_inv m (Index ` set (take j rs)) ?st"
      and nn: "nextFrameIndex ?st \<notin> Index ` set (take j rs)" by auto
    have "map fst (written ?st) = [0 .. nextFrameIndex ?st - 1]"
      using inv by (simp add: coll_inv_def comp_def)
    moreover have "fst ` set (pending ?st)
        = {k \<in> Index ` set (take j rs). nextFrameIndex ?st \<le> k}"
      using inv by (rule keys) (auto dest: in_set_takeD)
    ultimately show "let st = ?st in
             map fst (written st) = [0 .. nextFrameIndex st - 1]
             \<and> fst ` set (pending st)
                 = {k \<in> Index ` set (take j rs). nextFrameIndex st \<le> k}
             \<and> nextFrameIndex st \<notin> Index ` set (take j rs)"
      using nn by (simp add: Let_def)
  qed
  let ?st = "snd (collect pipe_ok collector0 rs)"
  from pre[of "length rs"] have fin: "fst (collect pipe_ok collector0 rs) = None"
    and inv: "coll_inv m {0 ..< n} ?st" and nn: "nextFrameIndex ?st \<notin> {0 ..< n}"
    using all by auto
  have n0: "0 \<le> nextFrameIndex ?st" and sub: "{0 ..< nextFrameIndex ?st} \<subseteq> {0 ..< n}"
    using inv by (auto simp: coll_inv_def)
  have upto: "[0 .. nextFrameIndex ?st - 1] = [0 .. n - 1]"
  proof (cases "0 < n")
    case True
    have "nextFrameIndex ?st \<le> n"
    proof (rule ccontr)
      assume "\<not> nextFrameIndex ?st \<le> n"
      then have "n \<in> {0 ..< nextFrameIndex ?st}" using True by simp
      with sub show False by auto
    qed
    with nn n0 have "nextFrameIndex ?st = n" by simp
    then show ?thesis by simp
  next
    case False
    have "nextFrameIndex ?st \<le> 0"
    proof (rule ccontr)
      assume "\<not> nextFrameIndex ?st \<le> 0"
      then have "0 \<in> {0 ..< nextFrameIndex ?st}" by simp
      with sub False show False by auto
    qed
    with False show ?thesis by simp
  qed
  have wr: "written ?st = map (\<lambda>i. (i, frame_pixels rs i)) [0 .. n - 1]"
    using inv upto by (simp add: coll_inv_def frame_pixels_def m_def)
  have "fst ` set (pending ?st) = {k \<in> {0 ..< n}. nextFrameIndex ?st \<le> k}"
    using inv by (rule keys) (simp add: all)
  also have "\<dots> = {}"
  proof -
    have "k < nextFrameIndex ?st" if "k \<in> {0 ..< n}" for k
    proof (cases "0 < n")
      case True
      have "nextFrameIndex ?st \<le> n"
      proof (rule ccontr)
        assume "\<not> nextFrameIndex ?st \<le> n"
        then have "n \<in> {0 ..< nextFrameIndex ?st}" using True by simp
        with sub show False by auto
      qed
      with nn n0 have "nextFrameIndex ?st = n" by simp
      with that show ?thesis by simp
    next
      case False
      with that show ?thesis by simp
    qed
    then show ?thesis by force
  qed
  finally have pe: "pending ?st = []" by simp
  show ?thesis using fin wr pe prefix by blast
qed

theorem collector_writes_in_order_witness:
  "distinct (map Index [\<lparr>Index = 2, Pixels = ''c'', Err = None\<rparr>,
                        \<lparr>Index = 0, Pixels = ''a'', Err = None\<rparr>,
                        \<lparr>Index = 1, Pixels = ''b'', Err = None\<rparr>])
   \<and> written (snd (collect (\<lambda>k. True) collector0
         [\<lparr>Index = 2, Pixels = ''c'', Err = None\<rparr>,
          \<lparr>Index = 0, Pixels = ''a'', Err = None\<rparr>,
          \<lparr>Index = 1, Pixels = ''b'', Err = None\<rparr>]))
       = [(0, ''a''), (1, ''b''), (2, ''c'')]"
proof -
  have s: "Index ` set [\<lparr>Index = 2, Pixels = ''c'', Err = None\<rparr>,
                        \<lparr>Index = 0, Pixels = ''a'', Err = None\<rparr>,
                        \<lparr>Index = 1, Pixels = ''b'', Err = None\<rparr>] = {0 ..< 3}"
    by auto
  have u: "[0 .. 3 - 1] = [0, 1, 2 :: int]" by code_simp
  show ?thesis
    using collector_writes_in_order[OF _ s, of "\<lambda>k. True"] u
    by (simp add: frame_pixels_def)
qed

subsection \<open>Shards of a decoded frame\<close>

lemma header_eccCfg_eq:
  "header_eccCfg h =
     \<lparr>DataShards = 16,
      ParityShards = (if HdrParityShards h = 0 then 48 else uint (HdrParityShards h))\<rparr>"
  by (simp add: header_eccCfg_def Let_def uint_0_iff)

lemma header_shardSize_eq:
  "header_shardSize h = max 1 \<lceil>real_of_int (uint (DataSize h)) / 16\<rceil>"
proof -
  let ?D = "uint (DataSize h)"
  have D: "0 \<le> ?D" "?D < 2 ^ 16" using uint_bounded[of "DataSize h"] by simp_all
  have q: "go_quo (?D + 16 - 1) 16 = (?D + 16 - 1) div 16"
    using D by (intro go_quo_nonneg) auto
  have c: "\<lceil>real_of_int ?D / real_of_int 16\<rceil> = (?D + 16 - 1) div 16"
    by (rule ceiling_div_int) simp
  have nn: "0 \<le> (?D + 16 - 1) div 16" using D by (simp add: pos_imp_zdiv_nonneg_iff)
  show ?thesis
    using c nn q by (simp add: header_shardSize_def header_eccCfg_eq Let_def max_def)
qed

lemma header_shardSize_pos: "1 \<le> header_shardSize h"
  by (simp add: header_shardSize_eq)

lemma split_shards_length:
  "length (split_shards h d)
     = 16 + (if HdrParityShards h = 0 then 48 else unat (HdrParityShards h))"
proof -
  have "0 \<le> uint (HdrParityShards h)" by simp
  then show ?thesis
    by (auto simp: split_shards_def header_eccCfg_eq Let_def nat_add_distrib)
qed

lemma shard_piece_length:
  assumes "1 \<le> S" "0 \<le> i"
  shows "length (shard_piece S dw i) = nat S"
proof (cases "i * S \<ge> int (length dw)")
  case True
  then show ?thesis by (simp add: shard_piece_def Let_def)
next
  case False
  define part where "part = take (nat ((if i * S + S > int (length dw) then int (length dw) else i * S + S) - i * S)) (drop (nat (i * S)) dw)"
  have "0 \<le> i * S" using assms by simp
  then have "length part \<le> nat S" using False unfolding part_def by (auto simp: min_def)
  then have "length (part @ replicate (nat S - length part) (0::byte)) = nat S" by simp
  then show ?thesis using False unfolding part_def by (simp add: shard_piece_def Let_def)
qed

lemma split_shards_each:
  assumes "s \<in> set (split_shards h d)"
  shows "int (length s) = header_shardSize h"
proof -
  have p: "1 \<le> header_shardSize h" by (rule header_shardSize_pos)
  from assms obtain i dw where i0: "0 \<le> i" and i: "s = shard_piece (header_shardSize h) dw i"
    unfolding split_shards_def Let_def by auto
  have "length s = nat (header_shardSize h)"
    unfolding i by (rule shard_piece_length[OF p i0])
  then show ?thesis using p by simp
qed

text \<open>
  C6 (as stated).  The claim gives every shard the size \<open>ceil(DataSize/16)\<close>.  For a
  header with \<open>DataSize = 0\<close> that is 0, but the decoder sets a shard size of 0 to 1:
  it builds 64 shards of one byte each.
\<close>

theorem decoder_shards_counterexample:
  "DataSize hdr_z = 0
   \<and> \<lceil>real_of_int (uint (DataSize hdr_z)) / 16\<rceil> = 0
   \<and> map length (split_shards hdr_z []) = replicate 64 1"
proof -
  have "map length (split_shards hdr_z []) = replicate 64 1" by code_simp
  then show ?thesis by (simp add: hdr_z_def emptyHeader_def)
qed

text \<open>
  C6 (amended).  For every frame whose header probe succeeds, the decoder builds its
  Reed--Solomon codec with 16 data shards and \<open>p\<close> parity shards, where \<open>p\<close> is the
  header's ParityShards field, except that \<open>p = 48\<close> when that field is 0, and splits
  the post-header bytes into \<open>16 + p\<close> shards each of size \<open>max(1, ceil(DataSize/16))\<close>.
\<close>

theorem decoder_shards:
  "header_eccCfg h =
     \<lparr>DataShards = 16,
      ParityShards = (if HdrParityShards h = 0 then 48 else uint (HdrParityShards h))\<rparr>
   \<and> length (split_shards h d)
       = 16 + (if HdrParityShards h = 0 then 48 else unat (HdrParityShards h))
   \<and> (\<forall>s \<in> set (split_shards h d).
         int (length s) = max 1 \<lceil>real_of_int (uint (DataSize h)) / 16\<rceil>)"
  using header_eccCfg_eq[of h] split_shards_length[of h d] split_shards_each[of _ h d]
    header_shardSize_eq[of h]
  by simp

theorem decoder_shards_witness:
  "length (split_shards hdr_s [1, 2, 3, 4, 5, 6, 7]) = 20
   \<and> map length (split_shards hdr_s [1, 2, 3, 4, 5, 6, 7]) = replicate 20 3
   \<and> hd (split_shards hdr_s [1, 2, 3, 4, 5, 6, 7]) = [1, 2, 3]"
proof -
  have h: "HdrParityShards hdr_s = 4" "uint (DataSize hdr_s) = 33"
    by (simp_all add: hdr_s_def emptyHeader_def)
  have c: "\<lceil>(33 :: real) / 16\<rceil> = 3" by simp
  have e: "hd (split_shards hdr_s [1, 2, 3, 4, 5, 6, 7]) = [1, 2, 3]" by code_simp
  from decoder_shards[of hdr_s "[1, 2, 3, 4, 5, 6, 7]"] h c
  have l: "length (split_shards hdr_s [1, 2, 3, 4, 5, 6, 7]) = 20"
    and a: "\<forall>s \<in> set (split_shards hdr_s [1, 2, 3, 4, 5, 6, 7]). length s = 3"
    by simp_all
  from a have "map length (split_shards hdr_s [1, 2, 3, 4, 5, 6, 7])
      = replicate (length (split_shards hdr_s [1, 2, 3, 4, 5, 6, 7])) 3"
    by (simp add: map_replicate_const[symmetric])
  with l e show ?thesis by simp
qed

subsection \<open>CRC mismatch and reassembly\<close>

lemma collect_results_ok:
  assumes "\<forall>r \<in> set rs. res_err r = None"
  shows "\<exists>w. collect_results (m, w0) rs
           = Inr (m ++ map_of (rev (map (\<lambda>r. (res_index r, r)) rs)), w)"
  using assms
proof (induction rs arbitrary: m w0)
  case Nil
  then show ?case by simp
next
  case (Cons r rs)
  from Cons.prems have e: "res_err r = None" and rest: "\<forall>r \<in> set rs. res_err r = None"
    by auto
  let ?m1 = "m(res_index r \<mapsto> r)"
  let ?w1 = "if res_crcOK r then w0 else w0 + 1"
  from Cons.IH[OF rest, of ?m1 ?w1] obtain w where
    w: "collect_results (?m1, ?w1) rs
           = Inr (?m1 ++ map_of (rev (map (\<lambda>r. (res_index r, r)) rs)), w)" by blast
  have "?m1 ++ map_of (rev (map (\<lambda>r. (res_index r, r)) rs))
      = m ++ map_of (rev (map (\<lambda>r. (res_index r, r)) (r # rs)))"
    by (rule ext) (simp add: map_add_def split: option.splits)
  then have "collect_results (?m1, ?w1) rs
           = Inr (m ++ map_of (rev (map (\<lambda>r. (res_index r, r)) (r # rs))), w)"
    using w by (simp only:)
  moreover have "collect_results (m, w0) (r # rs) = collect_results (?m1, ?w1) rs"
    using e by (simp del: fun_upd_apply)
  ultimately show ?case by (simp only: exI)
qed

lemma map_of_rev_distinct:
  assumes "distinct (map res_index rs)" "r \<in> set rs"
  shows "map_of (rev (map (\<lambda>r. (res_index r, r)) rs)) (res_index r) = Some r"
proof -
  have "distinct (map fst (rev (map (\<lambda>r. (res_index r, r)) rs)))"
    using assms(1) by (simp add: rev_map[symmetric] comp_def)
  moreover have "(res_index r, r) \<in> set (rev (map (\<lambda>r. (res_index r, r)) rs))"
    using assms(2) by auto
  ultimately show ?thesis by (rule map_of_is_SomeI)
qed

lemma find_distinct:
  assumes "distinct (map res_index rs)" "r \<in> set rs"
  shows "find (\<lambda>x. res_index x = res_index r) rs = Some r"
  using assms by (induction rs) (auto simp: image_iff)

lemma assemble_ok:
  assumes "\<forall>i \<in> set is. \<exists>r. m i = Some r"
  shows "assemble m is acc = Inr (acc @ concat (map (\<lambda>i. res_data (the (m i))) is))"
  using assms by (induction "is" arbitrary: acc) auto

lemma ReconstructFile_ok:
  assumes e: "\<forall>r \<in> set arrivals. res_err r = None"
    and d: "distinct (map res_index arrivals)"
    and a: "res_index ` set arrivals = {0 ..< n}"
  shows "ReconstructFile n arrivals
           = Inr (concat (map (\<lambda>i. res_data (result_of arrivals i)) [0 ..< n]))"
proof -
  let ?m = "map_of (rev (map (\<lambda>r. (res_index r, r)) arrivals))"
  from collect_results_ok[OF e, of Map.empty 0] obtain w where
    c: "collect_results (Map.empty, 0) arrivals = Inr (?m, w)" by auto
  have mi: "?m i = Some (result_of arrivals i)" if "i < n" for i
  proof -
    from that have "i \<in> res_index ` set arrivals" unfolding a by simp
    then obtain r where r: "r \<in> set arrivals" "res_index r = i" by (auto simp: image_iff)
    have "?m (res_index r) = Some r" using d r(1) by (rule map_of_rev_distinct)
    moreover have "find (\<lambda>x. res_index x = res_index r) arrivals = Some r"
      using d r(1) by (rule find_distinct)
    ultimately show ?thesis using r(2) by (simp add: result_of_def)
  qed
  then have "\<forall>i \<in> set [0 ..< n]. \<exists>r. ?m i = Some r" by simp
  from assemble_ok[OF this, of "[]"]
  have as: "assemble ?m [0 ..< n] [] = Inr (concat (map (\<lambda>i. res_data (the (?m i))) [0 ..< n]))"
    by simp
  have "map (\<lambda>i. res_data (the (?m i))) [0 ..< n]
      = map (\<lambda>i. res_data (result_of arrivals i)) [0 ..< n]"
    by (rule map_cong) (simp_all add: mi)
  with as have "assemble ?m [0 ..< n] []
      = Inr (concat (map (\<lambda>i. res_data (result_of arrivals i)) [0 ..< n]))"
    by simp
  then show ?thesis by (simp add: ReconstructFile_def c)
qed

lemma finish_frame_global:
  assumes g: "HasGlobal header = 1" "FrameIndex header = 0"
    and len: "20 \<le> uint (DataSize header)" "20 \<le> length out"
  shows "finish_frame header out =
     Inr (take (nat (min (uint (DataSize header)) (int (length out))) - 20) (drop 20 out),
          header\<lparr>GlobalMeta := projr (DecodeGlobalHeader (take 20 out))\<rparr>,
          ChecksumIEEE (take (nat (min (uint (DataSize header)) (int (length out)))) out)
            = DataCRC header)"
proof -
  have dg: "\<exists>gh. DecodeGlobalHeader (take 20 out) = Inr gh"
    using len by (simp add: DecodeGlobalHeader_def GlobalHeaderSizeBytes_def)
  then obtain gh where gh: "DecodeGlobalHeader (take 20 out) = Inr gh" by blast
  show ?thesis
    using g len gh
    by (auto simp: finish_frame_def GlobalHeaderSizeBytes_def Let_def go_slice_def min_def
        nat_diff_distrib)
qed

lemma finish_frame_plain:
  assumes "\<not> (HasGlobal header = 1 \<and> FrameIndex header = 0)"
  shows "finish_frame header out =
     Inr (take (nat (min (uint (DataSize header)) (int (length out)))) out, header,
          ChecksumIEEE (take (nat (min (uint (DataSize header)) (int (length out)))) out)
            = DataCRC header)"
  using assms by (auto simp: finish_frame_def Let_def min_def)

lemma funpow8: "(f ^^ 8) x = f (f (f (f (f (f (f (f x)))))))" for f :: "32 word \<Rightarrow> 32 word" and x
  by (simp add: eval_nat_numeral)

lemma crc5: "ChecksumIEEE (replicate 5 0) \<noteq> 0"
proof -
  have "replicate 5 (0 :: byte) = [0, 0, 0, 0, 0]" by (simp add: eval_nat_numeral)
  then show ?thesis
    by (simp add: ChecksumIEEE_def crc32_update_def funpow8 crc32_bit_def)
qed

lemma finish_frame_short_global:
  assumes "HasGlobal header = 1" "FrameIndex header = 0" "length out < 20"
  shows "finish_frame header out = Inl (InsufficientForGlobalHeader (length out))"
  using assms by (simp add: finish_frame_def GlobalHeaderSizeBytes_def Let_def)

lemma frame_g_header: "DecodeHeader (take FrameHeaderSizeBytes frame_g) = Inr hdr_g"
proof -
  have t: "take FrameHeaderSizeBytes frame_g
             = [0x4E, 0x43, 0x43, 0x31, 0, 0, 0, 0, 0, 5, 0, 0, 0, 0, 1, 4, 0, 18]"
    by (simp add: frame_g_def FrameHeaderSizeBytes_def)
  show ?thesis
    unfolding t
    by (subst DecodeHeader_ok)
       (simp_all add: be_word_def hdr_g_def emptyHeader_def NCC1_def)
qed

lemma concat_unit_length:
  "\<forall>s \<in> set xs. length s = 1 \<Longrightarrow> length (concat xs) = length xs"
  by (induction xs) auto

lemma join_unit_shards:
  assumes "length shards = 20" "\<forall>s \<in> set shards. length s = 1"
  shows "\<exists>out. rs_Join 16 shards 16 = Some out \<and> length out = 16"
proof -
  have "\<forall>s \<in> set (take 16 shards). length s = 1"
    using assms(2) by (meson in_set_takeD)
  then have "length (concat (take 16 shards)) = length (take 16 shards)"
    by (rule concat_unit_length)
  then have "length (concat (take 16 shards)) = 16" using assms(1) by simp
  then show ?thesis using assms(1) by (simp add: rs_Join_def Let_def)
qed

lemma decode_body_frame_g:
  "decode_body ext_stub (NewFrameReconstructor ''default'') frame_g
     = Inl (InsufficientForGlobalHeader 16)"
proof -
  have len: "length frame_g = 440" by (simp add: frame_g_def)
  have grid: "GridSize (FrameCfg (NewFrameReconstructor ''default'')) = Some (80, 44)"
    by (simp add: NewFrameReconstructor_def DefaultFrameConfig_def GridSize_def go_div_def
        go_quo_def int64_def)
  have bif: "bytesInFrame_of (FrameCfg (NewFrameReconstructor ''default'')) (int64 3520) = 440"
    by (simp add: NewFrameReconstructor_def DefaultFrameConfig_def bytesInFrame_of_def
        go_quo_def int64_def)
  have sl: "go_slice frame_g 18 440 = Some (replicate 422 0)"
    by (simp add: go_slice_def frame_g_def)
  have ss: "header_shardSize hdr_g = 1"
    by (simp add: header_shardSize_def header_eccCfg_def hdr_g_def emptyHeader_def Let_def
        go_quo_def int64_def)
  have ec: "header_eccCfg hdr_g = \<lparr>DataShards = 16, ParityShards = 4\<rparr>"
    by (simp add: header_eccCfg_def hdr_g_def emptyHeader_def Let_def)
  let ?shards = "split_shards hdr_g (replicate 422 0)"
  have l20: "length ?shards = 20"
    by (simp add: split_shards_length hdr_g_def emptyHeader_def)
  have each: "\<forall>s \<in> set ?shards. length s = 1"
    using split_shards_each[of _ hdr_g "replicate 422 0"] ss by auto
  from join_unit_shards[OF l20 each] obtain out where
    out: "rs_Join 16 ?shards 16 = Some out" "length out = 16" by blast
  have g: "HasGlobal hdr_g = 1" "FrameIndex hdr_g = 0" "Magic hdr_g = NCC1"
    by (simp_all add: hdr_g_def emptyHeader_def)
  have ff: "finish_frame hdr_g out = Inl (InsufficientForGlobalHeader 16)"
    using finish_frame_short_global[OF g(1,2), of out] out(2) by simp
  have d16: "DataShards (ECCCfg (NewFrameReconstructor ''default'')) = 16"
    by (simp add: NewFrameReconstructor_def)
  show ?thesis
    unfolding decode_body_def frame_g_header
    by (simp add: len FrameHeaderSizeBytes_def g grid bif sl ec ss ext_stub_def out ff d16
        Let_def)
qed

text \<open>
  C9 (as stated).  A frame of the default preset whose header probe succeeds, whose
  header marks it as frame 0 with the global header and gives a DataSize of 5, and whose
  data region fails the CRC check: the 16 joined bytes cannot hold the 20-byte global
  header, and processFrame returns the error "insufficient data for GlobalHeader"
  instead of the data with a warning.
\<close>

theorem crc_mismatch_short_global:
  "ChecksumIEEE (take (nat (min (uint (DataSize hdr_g)) (int (length (replicate 16 (0 :: byte))))))
       (replicate 16 0)) \<noteq> DataCRC hdr_g
   \<and> finish_frame hdr_g (replicate 16 0) = Inl (InsufficientForGlobalHeader 16)
   \<and> decode_body ext_stub (NewFrameReconstructor ''default'') frame_g
         = Inl (InsufficientForGlobalHeader 16)"
  using crc5 finish_frame_short_global[of hdr_g "replicate 16 0"] decode_body_frame_g
  by (simp add: hdr_g_def emptyHeader_def)

text \<open>
  C9 (amended).  When the CRC-32 of the truncated data region differs from the header's
  DataCRC and, on the frame that carries the global header (HasGlobal = 1 and FrameIndex
  = 0), the DataSize and the joined bytes are at least the 20 bytes of that header, the
  integrity step of processFrame returns the data
  with the flag \<open>crcOK = false\<close> and no error.  ReconstructFile fails only on a result
  that carries an error or on a missing index: when every frame's result arrived
  without error, the output is the concatenation of the payloads in index order,
  whatever the CRC flags are.
\<close>

theorem crc_mismatch_not_fatal:
  "(ChecksumIEEE (take (nat (min (uint (DataSize header)) (int (length out)))) out)
        \<noteq> DataCRC header
      \<longrightarrow> (HasGlobal header = 1 \<and> FrameIndex header = 0
             \<longrightarrow> 20 \<le> uint (DataSize header) \<and> 20 \<le> length out)
      \<longrightarrow> finish_frame header out =
            (if HasGlobal header = 1 \<and> FrameIndex header = 0
             then Inr (take (nat (min (uint (DataSize header)) (int (length out))) - 20)
                         (drop 20 out),
                       header\<lparr>GlobalMeta := projr (DecodeGlobalHeader (take 20 out))\<rparr>,
                       False)
             else Inr (take (nat (min (uint (DataSize header)) (int (length out)))) out,
                       header, False)))
   \<and> ((\<forall>r \<in> set arrivals. res_err r = None)
        \<longrightarrow> distinct (map res_index arrivals)
        \<longrightarrow> res_index ` set arrivals = {0 ..< n}
        \<longrightarrow> ReconstructFile n arrivals
              = Inr (concat (map (\<lambda>i. res_data (result_of arrivals i)) [0 ..< n])))"
proof (intro conjI impI)
  assume crc: "ChecksumIEEE (take (nat (min (uint (DataSize header)) (int (length out)))) out)
        \<noteq> DataCRC header"
    and wf: "HasGlobal header = 1 \<and> FrameIndex header = 0
             \<longrightarrow> 20 \<le> uint (DataSize header) \<and> 20 \<le> length out"
  show "finish_frame header out =
            (if HasGlobal header = 1 \<and> FrameIndex header = 0
             then Inr (take (nat (min (uint (DataSize header)) (int (length out))) - 20)
                         (drop 20 out),
                       header\<lparr>GlobalMeta := projr (DecodeGlobalHeader (take 20 out))\<rparr>,
                       False)
             else Inr (take (nat (min (uint (DataSize header)) (int (length out)))) out,
                       header, False))"
  proof (cases "HasGlobal header = 1 \<and> FrameIndex header = 0")
    case True
    with wf have "20 \<le> uint (DataSize header)" "20 \<le> length out" by auto
    from finish_frame_global[OF _ _ this] True crc show ?thesis by simp
  next
    case False
    from finish_frame_plain[OF False, of out] crc have
      "finish_frame header out
         = Inr (take (nat (min (uint (DataSize header)) (int (length out)))) out, header, False)"
      by simp
    then show ?thesis using False by (simp only: if_False)
  qed
next
  assume "\<forall>r \<in> set arrivals. res_err r = None" "distinct (map res_index arrivals)"
    "res_index ` set arrivals = {0 ..< n}"
  then show "ReconstructFile n arrivals
              = Inr (concat (map (\<lambda>i. res_data (result_of arrivals i)) [0 ..< n]))"
    by (rule ReconstructFile_ok)
qed

theorem crc_mismatch_not_fatal_witness:
  "ChecksumIEEE (take (nat (min (uint (DataSize hdr_w)) (int (length [1, 2, 3, 0 :: byte])))) [1, 2, 3, 0])
        \<noteq> DataCRC hdr_w
   \<and> finish_frame hdr_w [1, 2, 3, 0] = Inr ([1, 2, 3], hdr_w, False)
   \<and> ReconstructFile 2 [res_w 1 [9], res_w 0 [1, 2, 3]] = Inr [1, 2, 3, 9]"
proof -
  have f8: "(f ^^ 8) x = f (f (f (f (f (f (f (f x)))))))" for f :: "32 word \<Rightarrow> 32 word" and x
    by (simp add: eval_nat_numeral)
  have "ChecksumIEEE [1, 2, 3] = 0x55BC801D"
    by (simp add: ChecksumIEEE_def crc32_update_def f8 crc32_bit_def)
  then have c: "ChecksumIEEE [1, 2, 3] \<noteq> (0 :: 32 word)" by simp
  have h: "uint (DataSize hdr_w) = 3" "DataCRC hdr_w = 0" "HasGlobal hdr_w = 0"
    by (simp_all add: hdr_w_def emptyHeader_def)
  have s: "res_index ` set [res_w 1 [9], res_w 0 [1, 2, 3]] = {0 ..< 2}"
    by (auto simp: res_w_def)
  have r: "result_of [res_w 1 [9], res_w 0 [1, 2, 3]] 0 = res_w 0 [1, 2, 3]"
    "result_of [res_w 1 [9], res_w 0 [1, 2, 3]] 1 = res_w 1 [9]"
    by (simp_all add: result_of_def res_w_def)
  have u: "[0 ..< 2] = [0, 1]" by (simp add: upt_rec)
  show ?thesis
    using crc_mismatch_not_fatal[of hdr_w "[1, 2, 3, 0]" "[res_w 1 [9], res_w 0 [1, 2, 3]]" 2]
      c h s r u
    by (simp add: res_w_def)
qed


subsection \<open>Sampling: packing, the header probe and the first row of cells\<close>


lemma length_pack4: "length (pack4 bits) = length bits div 4"
  by (induction bits rule: pack4.induct) simp_all


lemma pack4_short: "length bits < 4 \<Longrightarrow> pack4 bits = []"
  using length_pack4[of bits] by simp


lemma ge4_cons:
  "4 \<le> length bits \<Longrightarrow> \<exists>b0 b1 b2 b3 rest. bits = b0 # b1 # b2 # b3 # rest"
  by (clarsimp simp: eval_nat_numeral Suc_le_length_iff)


lemma pack4_take: "take n (pack4 bits) = pack4 (take (4 * n) bits)"
proof (induction n arbitrary: bits)
  case 0
  then show ?case by simp
next
  case (Suc n)
  show ?case
  proof (cases "length bits < 4")
    case True
    then have "pack4 (take (4 * Suc n) bits) = []" by (intro pack4_short) simp
    with True show ?thesis by (simp add: pack4_short)
  next
    case False
    then have "4 \<le> length bits" by simp
    from ge4_cons[OF this] obtain b0 b1 b2 b3 rest where
      b: "bits = b0 # b1 # b2 # b3 # rest" by blast
    have "4 * Suc n = Suc (Suc (Suc (Suc (4 * n))))" by simp
    then show ?thesis unfolding b using Suc[of rest] by (simp del: mult_Suc_right)
  qed
qed




lemma sample_cell_binary:
  "GrayLevels fc = 2 \<Longrightarrow>
     sample_cell fc img t l ox oy x y = sample_cell fc img t (0, 0, 0) ox oy x y"
  by (simp add: sample_cell_def Let_def)

lemma grid_bits_binary:
  "GrayLevels fc = 2 \<Longrightarrow>
     grid_bits fc img t l ox oy cols rows = grid_bits fc img t (0, 0, 0) ox oy cols rows"
  unfolding grid_bits_def using sample_cell_binary[of fc img t l ox oy] by simp



subsection \<open>Calibration of a uniform band\<close>

lemma sum_list_const2:
  assumes "\<And>x y. x \<in> set xs \<Longrightarrow> y \<in> set ys \<Longrightarrow> f x y = (v::int)"
  shows "(\<Sum>y\<leftarrow>ys. \<Sum>x\<leftarrow>xs. f x y) = int (length ys * length xs) * v"
proof -
  have "(\<Sum>y\<leftarrow>ys. \<Sum>x\<leftarrow>xs. f x y) = (\<Sum>y\<leftarrow>ys. \<Sum>x\<leftarrow>xs. v)"
    using assms by (intro arg_cong[where f = sum_list] map_cong refl) simp
  also have "\<dots> = int (length ys * length xs) * v"
    by (simp add: sum_list_triv algebra_simps)
  finally show ?thesis .
qed

lemma measure_uniform:
  assumes "0 \<le> v" "v < 256" "sx = 0 \<or> sx = 960"
  shows "measureSectionAverage (uniform_raster v) sx 8 320 16 = word_of_int v"
proof -
  have q: "go_quo 320 4 = 80" "go_quo 16 4 = 4" by (simp_all add: go_quo_def int64_def)
  let ?ys = "[8 + 4 .. 8 + 16 - 4 - 1] :: int list"
  let ?xs = "[sx + 80 .. sx + 320 - 80 - 1]"
  have r: "\<And>x y. x \<in> set ?xs \<Longrightarrow> y \<in> set ?ys \<Longrightarrow> red_at (uniform_raster v) x y = v"
    using assms by (auto simp: red_at_def uniform_raster_def)
  have s: "(\<Sum>y\<leftarrow>?ys. \<Sum>x\<leftarrow>?xs. red_at (uniform_raster v) x y)
             = int (length ?ys * length ?xs) * v"
    by (rule sum_list_const2) (rule r)
  have n: "int (length ?ys * length ?xs) = 1280" by simp
  have m: "1280 * v mod 4294967296 = 1280 * v" using assms by simp
  show ?thesis
    unfolding measureSectionAverage_def Let_def q s n
    by (simp add: m)
qed

lemma calibrate_uniform:
  assumes "0 \<le> v" "v < 256"
  shows "calibrateFrame (uniform_raster v) = Inr (word_of_int v)"
    and "calibrateLevels (uniform_raster v) = Inr (64, 128, 192)"
proof -
  have w: "img_w (uniform_raster v) = 1280" by (simp add: uniform_raster_def)
  have q: "go_quo 1280 4 = 320" "go_quo 16 2 = 8" by (simp_all add: go_quo_def int64_def)
  have u: "uint (word_of_int v :: byte) = v" using assms by (simp add: uint_word_of_int)
  have h: "go_quo (2 * v) 2 = v" using assms by (simp add: go_quo_def int64_def sgn_if)
  have b: "measureSectionAverage (uniform_raster v) 0 8 320 16 = word_of_int v"
    using assms by (intro measure_uniform) simp_all
  have wt: "measureSectionAverage (uniform_raster v) 960 8 320 16 = word_of_int v"
    using assms by (intro measure_uniform) simp_all
  show "calibrateFrame (uniform_raster v) = Inr (word_of_int v)"
    unfolding calibrateFrame_def Let_def w CalibrationBarHeight_def
    by (simp add: q b wt u h)
  show "calibrateLevels (uniform_raster v) = Inr (64, 128, 192)"
    unfolding calibrateLevels_def Let_def w CalibrationBarHeight_def
    by (simp add: q b wt u)
qed

text \<open>
  C7.  On a raster whose calibration band is uniformly gray (both band means equal to
  v, so W - B = 0 < 10) the four-level thresholds take the defaults (64, 128, 192), but
  the binary threshold that processFrame uses is v, not the default 128:
  calibrateFrame never reports an error, so the fallback to 128 is never taken.
\<close>

theorem calibrateFrame_no_default:
  assumes "0 \<le> v" "v < 256"
  shows "calibrateLevels (uniform_raster v) = Inr (64, 128, 192)
       \<and> calibrateFrame (uniform_raster v) = Inr (word_of_int v)
       \<and> (case calibrateFrame (uniform_raster v) of Inl e \<Rightarrow> 128 | Inr t \<Rightarrow> t)
            = (word_of_int v :: byte)"
  using calibrate_uniform[OF assms] by simp

theorem calibrateFrame_no_default_witness:
  "calibrateLevels (uniform_raster 100) = Inr (64, 128, 192)
     \<and> calibrateFrame (uniform_raster 100) = Inr 100
     \<and> (case calibrateFrame (uniform_raster 100) of Inl e \<Rightarrow> 128 | Inr t \<Rightarrow> t) = (100 :: byte)
     \<and> (100 :: byte) \<noteq> 128"
  using calibrateFrame_no_default[of 100] by simp


subsection \<open>The macro size after the spatial scan\<close>










lemma find_first_Some:
  "find_first f xs = Some (x, y) \<Longrightarrow> x \<in> set xs \<and> f x = Some y"
  by (induction xs) (auto split: option.splits)







end
